theory Spec2Isabelle
  imports Complex_Main "HOL-Library.Log_Nat"
begin

section \<open>Machine arithmetic of the analyzer\<close>

subsection \<open>int64\<close>

text \<open>
  Go's \<^verbatim>\<open>int64\<close> values are modelled as integers in the range from \<open>- 2 ^ 63\<close> up to
  (excluding) \<open>2 ^ 63\<close>; every \<^verbatim>\<open>+\<close>, \<^verbatim>\<open>-\<close> and \<^verbatim>\<open>*\<close> of the source on \<^verbatim>\<open>int64\<close> operands
  is followed by \<open>i64\<close>, the two's complement wrap-around.
\<close>

definition i64 :: "int \<Rightarrow> int" where
  "i64 x = signed_take_bit 63 x"

subsection \<open>float64\<close>

text \<open>
  A finite \<^verbatim>\<open>float64\<close> is a rational number. An arithmetic operation computes the exact
  result and rounds it to 53 significant bits, ties to even (\<open>rnd\<close>). The exponent range
  is left unbounded: the operands are \<^verbatim>\<open>int64\<close> values and small constants, so the
  magnitudes that occur in the analyzer lie between the reciprocal of \<open>2 ^ 120\<close> and
  \<open>2 ^ 70\<close>, or are zero, which is far inside the normal range of binary64; neither
  overflow nor gradual underflow occurs. The one operation of the
  analyzer that can leave the finite numbers is the division by \<^verbatim>\<open>tsConnDiv\<close>, which may
  be zero; from there on values are of type \<open>f64\<close>.
\<close>

text \<open>\<open>expo q\<close> is the binary exponent of \<open>q \<noteq> 0\<close>: \<open>2 powi expo q \<le> \<bar>q\<bar> < 2 powi (expo q + 1)\<close>.\<close>

definition expo :: "rat \<Rightarrow> int" where
  "expo q = (case quotient_of q of (a, b) \<Rightarrow>
     (let e = bitlen \<bar>a\<bar> - bitlen b in if 2 powi e \<le> \<bar>q\<bar> then e else e - 1))"

definition round_even :: "rat \<Rightarrow> int" where
  "round_even y = (let f = \<lfloor>y\<rfloor>; r = y - of_int f in
     if r < 1 / 2 then f else if 1 / 2 < r then f + 1 else if even f then f else f + 1)"

definition rnd :: "rat \<Rightarrow> rat" where
  "rnd q = (if q = 0 then 0
            else (let u = 2 powi (expo q - 52) in of_int (round_even (q / u)) * u))"

definition fadd :: "rat \<Rightarrow> rat \<Rightarrow> rat" where
  "fadd x y = rnd (x + y)"

definition fsub :: "rat \<Rightarrow> rat \<Rightarrow> rat" where
  "fsub x y = rnd (x - y)"

definition fmul :: "rat \<Rightarrow> rat \<Rightarrow> rat" where
  "fmul x y = rnd (x * y)"

text \<open>Division of finite numbers by a divisor that is not zero.\<close>

definition fdiv :: "rat \<Rightarrow> rat \<Rightarrow> rat" where
  "fdiv x y = rnd (x / y)"

text \<open>The conversion \<^verbatim>\<open>float64(k)\<close> of an \<^verbatim>\<open>int64\<close>.\<close>

definition float64 :: "int \<Rightarrow> rat" where
  "float64 k = rnd (of_int k)"

text \<open>\<^verbatim>\<open>math.Ceil\<close> is exact: the ceiling of a binary64 number is a binary64 number.\<close>

definition Ceil :: "rat \<Rightarrow> rat" where
  "Ceil x = of_int \<lceil>x\<rceil>"

datatype f64 = Fin rat | PosInf | NegInf | NaN

text \<open>
  \<^verbatim>\<open>x / y\<close> on \<^verbatim>\<open>float64\<close> with finite operands, where \<open>y\<close> may be zero. The divisor
  \<^verbatim>\<open>tsConnDiv\<close> is zero only as \<open>+0\<close> (the difference of two equal numbers, divided by
  ten); by IEEE 754 a positive number over \<open>+0\<close> is \<open>+Inf\<close>, a negative one \<open>-Inf\<close>, and
  zero over zero is NaN.
\<close>

definition fdiv0 :: "rat \<Rightarrow> rat \<Rightarrow> f64" where
  "fdiv0 x y = (if y = 0 then (if 0 < x then PosInf else if x < 0 then NegInf else NaN)
                else Fin (fdiv x y))"

text \<open>
  The operations applied to the connection score and to what is computed from it are
  \<^verbatim>\<open>c + x\<close>, \<^verbatim>\<open>x / c\<close> and \<^verbatim>\<open>x * c\<close> with a finite \<open>c > 0\<close>, and \<^verbatim>\<open>math.Ceil\<close>. Each of
  them returns an infinity or NaN unchanged; \<open>f64_lift g\<close> extends such an operation
  \<open>g\<close> on finite numbers in this way.
\<close>

definition f64_lift :: "(rat \<Rightarrow> rat) \<Rightarrow> f64 \<Rightarrow> f64" where
  "f64_lift g x = (case x of Fin q \<Rightarrow> Fin (g q) | PosInf \<Rightarrow> PosInf | NegInf \<Rightarrow> NegInf | NaN \<Rightarrow> NaN)"

text \<open>The comparisons \<^verbatim>\<open>x > y\<close> and \<^verbatim>\<open>x <= y\<close> of IEEE 754: false when an operand is NaN.\<close>

fun f64_le :: "f64 \<Rightarrow> f64 \<Rightarrow> bool" where
  "f64_le NaN _ = False"
| "f64_le _ NaN = False"
| "f64_le NegInf _ = True"
| "f64_le _ PosInf = True"
| "f64_le (Fin x) (Fin y) = (x \<le> y)"
| "f64_le _ _ = False"

definition f64_gt :: "f64 \<Rightarrow> f64 \<Rightarrow> bool" where
  "f64_gt x y \<longleftrightarrow> (x \<noteq> NaN \<and> y \<noteq> NaN \<and> \<not> f64_le x y)"


section \<open>Helpers of package \<^verbatim>\<open>util\<close>\<close>

text \<open>
  Modelled from the spec: \<^verbatim>\<open>util.Round\<close> is not among the source files. The specification
  (4.A, step 2) says: rounding is half-away-from-zero; on a tie at 0.5 the larger index
  wins.
\<close>

definition Round :: "rat \<Rightarrow> int" where
  "Round x = (if 0 \<le> x then \<lfloor>x + 1 / 2\<rfloor> else \<lceil>x - 1 / 2\<rceil>)"

text \<open>
  Modelled from the spec: \<^verbatim>\<open>util.Abs\<close> is not among the source files. The specification
  (4.A, step 4) says \<open>devs[i] = |diff[i] - Q2|\<close>; the result is an \<^verbatim>\<open>int64\<close>.
\<close>

definition Abs :: "int \<Rightarrow> int" where
  "Abs x = i64 \<bar>x\<bar>"

text \<open>
  Modelled from the spec: \<^verbatim>\<open>util.SortableInt64\<close> is not among the source files. The
  specification (4.A, steps 1 and 4) says that the slices are sorted ascending.
\<close>

definition sortInt64 :: "int list \<Rightarrow> int list" where
  "sortInt64 xs = sort xs"

section \<open>Data model\<close>

text \<open>
  Modelled from the spec: the types \<^verbatim>\<open>data.UniqueIP\<close> and \<^verbatim>\<open>data.UniqueSrcFQDNPair\<close> are not
  among the source files. The specification (3 and 6) says that the pair identifier is
  \<open>{srcIP, srcNetworkName, fqdn}\<close> and that a host document is keyed by source IP and
  network name. The analyzer uses these values only as keys and reads the fields
  \<^verbatim>\<open>SrcNetworkName\<close> and \<^verbatim>\<open>FQDN\<close>.
\<close>

record UniqueIP =
  IP :: string
  NetworkName :: string

record UniqueSrcFQDNPair =
  SrcIP :: string
  SrcNetworkName :: string
  FQDN :: string

text \<open>
  Modelled from the spec: \<^verbatim>\<open>entry.Hosts.UniqueSrcIP.Unpair()\<close>, the source host of the pair
  (specification 4.C: the reconciler is given the key of the source).
\<close>

definition Unpair :: "UniqueSrcFQDNPair \<Rightarrow> UniqueIP" where
  "Unpair h = \<lparr>IP = SrcIP h, NetworkName = SrcNetworkName h\<rparr>"

text \<open>
  Modelled from the spec: the type \<^verbatim>\<open>uconnproxy.Input\<close> is not among the source files. The
  specification (3 and 6) gives the record \<open>{hosts, proxy, connectionCount, tsList}\<close> with
  an \<^verbatim>\<open>int64\<close> count and a list of \<^verbatim>\<open>int64\<close> timestamps that may be absent.
  \<open>TsList = None\<close> is the \<^verbatim>\<open>nil\<close> slice; \<open>Some []\<close> is a slice that is empty and not \<^verbatim>\<open>nil\<close>.
\<close>

record Input =
  Hosts :: UniqueSrcFQDNPair
  TsList :: "int list option"
  ConnectionCount :: int
  Proxy :: string

text \<open>
  The selectors (\<^verbatim>\<open>bson.M\<close> find documents) the analyzer builds: \<^verbatim>\<open>entry.Hosts.BSONKey()\<close>,
  and \<^verbatim>\<open>src.BSONKey()\<close> alone or extended by a condition on \<^verbatim>\<open>dat\<close>.
\<close>

datatype cmp = Lte | Gte

datatype dat_cond =
    DatMbproxy string
  | DatElemMatch int cmp f64

datatype selector =
    PairKey UniqueSrcFQDNPair
  | SrcKey UniqueIP "dat_cond option"

text \<open>The \<^verbatim>\<open>$set\<close> document of the pair record, field by field.\<close>

record beacon_set =
  set_connection_count :: int
  set_proxy :: string
  set_src_network_name :: string
  set_ts_range :: int
  set_ts_mode :: int
  set_ts_mode_count :: int
  set_ts_intervals :: "int list"
  set_ts_interval_counts :: "int list"
  set_ts_dispersion :: int
  set_ts_skew :: rat
  set_ts_conns_score :: f64
  set_ts_score :: f64
  set_tslist :: "int list"
  set_score :: f64
  set_cid :: int
  set_strobeFQDN :: bool

text \<open>
  The update documents: \<^verbatim>\<open>{"$set": {"strobeFQDN": b}}\<close>, the \<^verbatim>\<open>$set\<close> of the pair record,
  \<^verbatim>\<open>{"$set": {"dat.$.max_beacon_proxy_score": s, "dat.$.mbproxy": f, "dat.$.cid": c}}\<close> and
  \<^verbatim>\<open>{"$push": {"dat": {"max_beacon_proxy_score": s, "mbproxy": f, "cid": c}}}\<close>.
\<close>

datatype update_doc =
    SetStrobeFQDN bool
  | SetBeacon beacon_set
  | SetDatPositional f64 string int
  | PushDat f64 string int

text \<open>
  Modelled from the spec: the types \<^verbatim>\<open>updateInfo\<close> and \<^verbatim>\<open>update\<close> are declared in a file of
  the package that is not among the source files. The analyzer assigns to the fields
  \<^verbatim>\<open>selector\<close> and \<^verbatim>\<open>query\<close> of the first and \<^verbatim>\<open>beacon\<close>, \<^verbatim>\<open>hostBeacon\<close> and \<^verbatim>\<open>uconnproxy\<close> of the
  second; the specification (3) calls them the three optional sub-updates of the
  envelope. \<open>None\<close> is \<^verbatim>\<open>nil\<close>, so \<^verbatim>\<open>updateInfo{}\<close> is \<open>noUpdate\<close>.
\<close>

record updateInfo =
  selector :: "selector option"
  query :: "update_doc option"

definition noUpdate :: updateInfo where
  "noUpdate = \<lparr>selector = None, query = None\<rparr>"

record update =
  beacon :: updateInfo
  hostBeacon :: updateInfo
  uconnproxy :: updateInfo

text \<open>An error of the store.\<close>

datatype db_error = DbError string

text \<open>
  The fields of \<^verbatim>\<open>analyzer\<close> that the loop body reads. \<open>db\<close> stands for the session on
  the hosts collection: what \<^verbatim>\<open>Find(selector).Count()\<close> returns for a selector.
\<close>

record analyzer =
  tsMin :: int
  tsMax :: int
  chunk :: int
  db :: "selector \<Rightarrow> db_error + int"

section \<open>Run-time panics\<close>

datatype panic = IndexOutOfRange | MakeSliceLenOutOfRange

definition and_then :: "panic + 'a \<Rightarrow> ('a \<Rightarrow> panic + 'b) \<Rightarrow> panic + 'b" where
  "and_then m f = (case m of Inl p \<Rightarrow> Inl p | Inr v \<Rightarrow> f v)"

text \<open>\<^verbatim>\<open>make([]int64, n)\<close>\<close>

definition makeSlice :: "int \<Rightarrow> panic + int list" where
  "makeSlice n = (if n < 0 then Inl MakeSliceLenOutOfRange else Inr (replicate (nat n) 0))"

text \<open>\<^verbatim>\<open>xs[i]\<close>\<close>

definition index :: "int list \<Rightarrow> int \<Rightarrow> panic + int" where
  "index xs i = (if 0 \<le> i \<and> i < int (length xs) then Inr (xs ! nat i) else Inl IndexOutOfRange)"


section \<open>The histogram: \<^verbatim>\<open>createCountMap\<close>\<close>

text \<open>
  A \<^verbatim>\<open>map[int64]int64\<close>; reading a key that is absent yields zero, and \<^verbatim>\<open>counts[k]++\<close>
  stores the old value plus one. A count is at most the length of the slice that is
  counted, so this addition does not wrap around.
\<close>

type_synonym counts = "int \<rightharpoonup> int"

definition get_count :: "counts \<Rightarrow> int \<Rightarrow> int" where
  "get_count m k = (case m k of None \<Rightarrow> 0 | Some c \<Rightarrow> c)"

definition incr :: "counts \<Rightarrow> int \<Rightarrow> counts" where
  "incr m k = m(k \<mapsto> get_count m k + 1)"

text \<open>
  The loop of \<^verbatim>\<open>countAndRemoveConsecutiveDuplicates\<close> over \<^verbatim>\<open>numberList[idx:]\<close>, with the
  variables \<^verbatim>\<open>last\<close> (here \<open>last0\<close>), \<^verbatim>\<open>result\<close> and \<^verbatim>\<open>counts\<close>.
\<close>

fun dedup_loop :: "int \<Rightarrow> int list \<Rightarrow> counts \<Rightarrow> int list \<Rightarrow> int list \<times> counts" where
  "dedup_loop last0 result cnts [] = (result, cnts)"
| "dedup_loop last0 result cnts (x # rest) =
     dedup_loop x (if last0 \<noteq> x then result @ [x] else result) (incr cnts x) rest"

definition countAndRemoveConsecutiveDuplicates :: "int list \<Rightarrow> panic + (int list \<times> counts)" where
  "countAndRemoveConsecutiveDuplicates numberList =
     (case numberList of
        [] \<Rightarrow> Inl IndexOutOfRange
      | last0 # rest \<Rightarrow> Inr (dedup_loop last0 [last0] (incr Map.empty last0) rest))"

text \<open>
  The loop of \<^verbatim>\<open>createCountMap\<close> over \<^verbatim>\<open>distinct[i:]\<close>, with the variables \<^verbatim>\<open>countsArr\<close>,
  \<^verbatim>\<open>mode\<close> and \<^verbatim>\<open>max\<close>. The index \<open>i\<close> is below the length of \<^verbatim>\<open>countsArr\<close>, which was
  made with the length of \<^verbatim>\<open>distinct\<close>.
\<close>

fun count_loop :: "counts \<Rightarrow> nat \<Rightarrow> int list \<Rightarrow> int list \<Rightarrow> int \<Rightarrow> int \<Rightarrow> int list \<times> int \<times> int" where
  "count_loop countsMap i [] countsArr mode mx = (countsArr, mode, mx)"
| "count_loop countsMap i (datum # rest) countsArr mode mx =
     (let count = get_count countsMap datum in
      if count > mx then count_loop countsMap (Suc i) rest (countsArr[i := count]) datum count
      else count_loop countsMap (Suc i) rest (countsArr[i := count]) mode mx)"

definition createCountMap :: "int list \<Rightarrow> panic + (int list \<times> int list \<times> int \<times> int)" where
  "createCountMap sortedIn =
     and_then (countAndRemoveConsecutiveDuplicates sortedIn) (\<lambda>(distinct0, countsMap).
       and_then (makeSlice (int (length distinct0))) (\<lambda>countsArr.
         and_then (index distinct0 0) (\<lambda>mode.
           (case count_loop countsMap 0 distinct0 countsArr mode (get_count countsMap mode) of
              (countsArr', mode', mx') \<Rightarrow> Inr (distinct0, countsArr', mode', mx')))))"

section \<open>The host-max reconciler: \<^verbatim>\<open>hostBeaconQuery\<close>\<close>

text \<open>
  The three counted queries are issued in the order of the source; an error of a query
  is logged (the log is not part of the model) and \<^verbatim>\<open>updateInfo{}\<close> is returned. The
  pair \<open>(newFlag, updateFlag)\<close> is computed as in the source.
\<close>

definition hostBeaconQuery :: "analyzer \<Rightarrow> f64 \<Rightarrow> UniqueIP \<Rightarrow> string \<Rightarrow> updateInfo" where
  "hostBeaconQuery a score src fqdn =
     (let maxBeaconMatchExactQuery = SrcKey src (Some (DatMbproxy fqdn)) in
      case db a maxBeaconMatchExactQuery of
        Inl err \<Rightarrow> noUpdate
      | Inr nExactMatches \<Rightarrow>
          if nExactMatches > 0 then
            \<lparr>selector = Some maxBeaconMatchExactQuery,
             query = Some (SetDatPositional score fqdn (chunk a))\<rparr>
          else
            (let maxBeaconMatchLowerQuery = SrcKey src (Some (DatElemMatch (chunk a) Lte score)) in
             case db a maxBeaconMatchLowerQuery of
               Inl err \<Rightarrow> noUpdate
             | Inr nLowerMatches \<Rightarrow>
                 (case (if nLowerMatches = 0 then
                          (let maxBeaconMatchUpperQuery =
                                 SrcKey src (Some (DatElemMatch (chunk a) Gte score)) in
                           case db a maxBeaconMatchUpperQuery of
                             Inl err \<Rightarrow> Inl err
                           | Inr nUpperMatches \<Rightarrow> Inr (nUpperMatches = 0, False))
                        else Inr (False, True)) of
                    Inl err \<Rightarrow> noUpdate
                  | Inr (newFlag, updateFlag) \<Rightarrow>
                      if newFlag then
                        \<lparr>selector = Some (SrcKey src None),
                         query = Some (PushDat score fqdn (chunk a))\<rparr>
                      else if updateFlag then
                        \<lparr>selector = Some maxBeaconMatchLowerQuery,
                         query = Some (SetDatPositional score fqdn (chunk a))\<rparr>
                      else noUpdate)))"

section \<open>The pair scorer: the body of the loop of \<^verbatim>\<open>start\<close>\<close>

text \<open>
  The loop that fills \<^verbatim>\<open>diff\<close>: \<open>diff[i] = TsList[i+1] - TsList[i]\<close> for \<open>i\<close> below
  \<^verbatim>\<open>tsLength\<close>, which is the length of \<^verbatim>\<open>TsList\<close> less one, so both reads are in range.
\<close>

definition deltas :: "int list \<Rightarrow> int list" where
  "deltas ts = map (\<lambda>i. i64 (ts ! Suc i - ts ! i)) [0..<length ts - 1]"

text \<open>The loop that fills \<^verbatim>\<open>devs\<close>.\<close>

definition deviations :: "int list \<Rightarrow> int \<Rightarrow> int list" where
  "deviations diff tsMid = map (\<lambda>d. Abs (i64 (d - tsMid))) diff"

text \<open>
  The values the statistics part of the loop body (lines 103 to 148) computes from
  \<^verbatim>\<open>entry.TsList\<close>, under the names of the source's variables.
\<close>

record stats =
  diff :: "int list"
  tsLow :: int
  tsMid :: int
  tsHigh :: int
  tsSkew :: rat
  devs :: "int list"
  tsMadm :: int
  tsIntervalRange :: int
  intervals :: "int list"
  intervalCounts :: "int list"
  tsMode :: int
  tsModeCount :: int

definition statistics :: "int list \<Rightarrow> panic + stats" where
  "statistics ts =
     (let tsLength = int (length ts) - 1 in
      and_then (makeSlice tsLength) (\<lambda>diff0.
      let diff1 = sortInt64 (deltas ts) in
      and_then (index diff1 (Round (fmul (1 / 4) (float64 (tsLength - 1))))) (\<lambda>tsLow1.
      and_then (index diff1 (Round (fmul (1 / 2) (float64 (tsLength - 1))))) (\<lambda>tsMid1.
      and_then (index diff1 (Round (fmul (3 / 4) (float64 (tsLength - 1))))) (\<lambda>tsHigh1.
      let tsBowleyNum = i64 (i64 (tsLow1 + tsHigh1) - i64 (2 * tsMid1));
          tsBowleyDen = i64 (tsHigh1 - tsLow1);
          tsSkew1 = (if tsBowleyDen \<noteq> 0 \<and> tsMid1 \<noteq> tsLow1 \<and> tsMid1 \<noteq> tsHigh1
                     then fdiv (float64 tsBowleyNum) (float64 tsBowleyDen) else 0);
          devs1 = sortInt64 (deviations diff1 tsMid1) in
      and_then (index devs1 (Round (fmul (1 / 2) (float64 (tsLength - 1))))) (\<lambda>tsMadm1.
      and_then (index diff1 (tsLength - 1)) (\<lambda>diffLast.
      and_then (index diff1 0) (\<lambda>diffFirst.
      and_then (createCountMap diff1) (\<lambda>(intervals1, intervalCounts1, tsMode1, tsModeCount1).
      Inr \<lparr>diff = diff1, tsLow = tsLow1, tsMid = tsMid1, tsHigh = tsHigh1, tsSkew = tsSkew1,
           devs = devs1, tsMadm = tsMadm1, tsIntervalRange = i64 (diffLast - diffFirst),
           intervals = intervals1, intervalCounts = intervalCounts1,
           tsMode = tsMode1, tsModeCount = tsModeCount1\<rparr>)))))))))"

text \<open>The three component scores and their sum (lines 150 to 168).\<close>

definition tsSkewScore :: "rat \<Rightarrow> rat" where
  "tsSkewScore skew = fsub 1 \<bar>skew\<bar>"

definition tsMadmScore :: "int \<Rightarrow> rat" where
  "tsMadmScore madm = (let s = fsub 1 (fdiv (float64 madm) 30) in if s < 0 then 0 else s)"

definition tsConnCountScore :: "analyzer \<Rightarrow> int \<Rightarrow> f64" where
  "tsConnCountScore a connectionCount =
     (let tsConnDiv = fdiv (fsub (float64 (tsMax a)) (float64 (tsMin a))) 10;
          s = fdiv0 (float64 connectionCount) tsConnDiv
      in if f64_gt s (Fin 1) then Fin 1 else s)"

definition tsSum :: "analyzer \<Rightarrow> int \<Rightarrow> stats \<Rightarrow> f64" where
  "tsSum a connectionCount k =
     f64_lift (\<lambda>c. fadd (fadd (tsSkewScore (tsSkew k)) (tsMadmScore (tsMadm k))) c)
       (tsConnCountScore a connectionCount)"

text \<open>\<^verbatim>\<open>math.Ceil((tsSum/3.0)*1000) / 1000\<close> (lines 171 and 172).\<close>

definition ceil3 :: "f64 \<Rightarrow> f64" where
  "ceil3 s = f64_lift (\<lambda>x. fdiv (Ceil (fmul (fdiv x 3) 1000)) 1000) s"

text \<open>
  The branch for an entry with timestamps. The result is the update handed to
  \<^verbatim>\<open>analyzedCallback\<close>, or the panic that ends the program before the call.
\<close>

definition analyzeTimestamps :: "analyzer \<Rightarrow> Input \<Rightarrow> int list \<Rightarrow> panic + update" where
  "analyzeTimestamps a entry ts =
     (let selectorPair = PairKey (Hosts entry) in
      and_then (statistics ts) (\<lambda>k.
      let tsScore = ceil3 (tsSum a (ConnectionCount entry) k);
          score = ceil3 (tsSum a (ConnectionCount entry) k)
      in Inr \<lparr>beacon = \<lparr>selector = Some selectorPair,
                        query = Some (SetBeacon
                          \<lparr>set_connection_count = ConnectionCount entry,
                           set_proxy = Proxy entry,
                           set_src_network_name = SrcNetworkName (Hosts entry),
                           set_ts_range = tsIntervalRange k,
                           set_ts_mode = tsMode k,
                           set_ts_mode_count = tsModeCount k,
                           set_ts_intervals = intervals k,
                           set_ts_interval_counts = intervalCounts k,
                           set_ts_dispersion = tsMadm k,
                           set_ts_skew = tsSkew k,
                           set_ts_conns_score = tsConnCountScore a (ConnectionCount entry),
                           set_ts_score = tsScore,
                           set_tslist = ts,
                           set_score = score,
                           set_cid = chunk a,
                           set_strobeFQDN = False\<rparr>)\<rparr>,
               hostBeacon = hostBeaconQuery a score (Unpair (Hosts entry)) (FQDN (Hosts entry)),
               uconnproxy = noUpdate\<rparr>))"

text \<open>The body of the loop: the strobe branch for a \<^verbatim>\<open>nil\<close> \<^verbatim>\<open>TsList\<close>, the scorer otherwise.\<close>

definition analyzeEntry :: "analyzer \<Rightarrow> Input \<Rightarrow> panic + update" where
  "analyzeEntry a entry =
     (case TsList entry of
        None \<Rightarrow>
          Inr \<lparr>beacon = noUpdate, hostBeacon = noUpdate,
               uconnproxy = \<lparr>selector = Some (PairKey (Hosts entry)),
                             query = Some (SetStrobeFQDN True)\<rparr>\<rparr>
      | Some ts \<Rightarrow> analyzeTimestamps a entry ts)"


section \<open>The hosts collection\<close>

text \<open>
  Modelled from the spec: the store is outside the repository. The specification (1,
  4.C and 6) describes it as a document store that answers counted predicate queries;
  a host document is keyed by the source host and carries \<^verbatim>\<open>dat\<close> elements with the
  fields \<^verbatim>\<open>max_beacon_proxy_score\<close>, \<^verbatim>\<open>mbproxy\<close> and \<^verbatim>\<open>cid\<close>, each of which may be absent.
  A query on \<^verbatim>\<open>dat.mbproxy\<close> holds when some element has that value; an \<^verbatim>\<open>$elemMatch\<close>
  holds when one element meets all its conditions; a comparison with an absent field
  does not hold.
\<close>

record dat_elem =
  max_beacon_proxy_score :: "f64 option"
  mbproxy :: "string option"
  cid :: "int option"

record host_doc =
  host :: UniqueIP
  dat :: "dat_elem list"

fun compares :: "cmp \<Rightarrow> f64 \<Rightarrow> f64 \<Rightarrow> bool" where
  "compares Lte v s = f64_le v s"
| "compares Gte v s = f64_le s v"

fun elem_matches :: "dat_cond \<Rightarrow> dat_elem \<Rightarrow> bool" where
  "elem_matches (DatMbproxy fqdn) e = (mbproxy e = Some fqdn)"
| "elem_matches (DatElemMatch c ord s) e =
     (cid e = Some c \<and>
      (case max_beacon_proxy_score e of None \<Rightarrow> False | Some v \<Rightarrow> compares ord v s))"

fun matches :: "selector \<Rightarrow> host_doc \<Rightarrow> bool" where
  "matches (PairKey h) d = False"
| "matches (SrcKey src None) d = (host d = src)"
| "matches (SrcKey src (Some c)) d = (host d = src \<and> list_ex (elem_matches c) (dat d))"

definition store_count :: "host_doc list \<Rightarrow> selector \<Rightarrow> db_error + int" where
  "store_count st sel = Inr (int (length (filter (matches sel) st)))"

text \<open>The three questions of the specification (4.C), in its words.\<close>

definition has_fqdn :: "host_doc list \<Rightarrow> UniqueIP \<Rightarrow> string \<Rightarrow> bool" where
  "has_fqdn st src fqdn =
     list_ex (\<lambda>d. host d = src \<and> list_ex (\<lambda>e. mbproxy e = Some fqdn) (dat d)) st"

definition has_lower_other :: "host_doc list \<Rightarrow> UniqueIP \<Rightarrow> int \<Rightarrow> f64 \<Rightarrow> string \<Rightarrow> bool" where
  "has_lower_other st src c s fqdn =
     list_ex (\<lambda>d. host d = src \<and>
       list_ex (\<lambda>e. cid e = Some c \<and> mbproxy e \<noteq> Some fqdn \<and>
         (case max_beacon_proxy_score e of None \<Rightarrow> False | Some v \<Rightarrow> f64_le v s)) (dat d)) st"

definition has_upper :: "host_doc list \<Rightarrow> UniqueIP \<Rightarrow> int \<Rightarrow> f64 \<Rightarrow> bool" where
  "has_upper st src c s =
     list_ex (\<lambda>d. host d = src \<and>
       list_ex (\<lambda>e. cid e = Some c \<and>
         (case max_beacon_proxy_score e of None \<Rightarrow> False | Some v \<Rightarrow> f64_le s v)) (dat d)) st"

text \<open>
  A query of the reconciler fails: the first one, or a later one that is reached
  because the counts before it did not decide.
\<close>

definition query_fails :: "analyzer \<Rightarrow> f64 \<Rightarrow> UniqueIP \<Rightarrow> string \<Rightarrow> bool" where
  "query_fails a s src fqdn =
     (case db a (SrcKey src (Some (DatMbproxy fqdn))) of
        Inl err \<Rightarrow> True
      | Inr nExact \<Rightarrow>
          \<not> nExact > 0 \<and>
          (case db a (SrcKey src (Some (DatElemMatch (chunk a) Lte s))) of
             Inl err \<Rightarrow> True
           | Inr nLower \<Rightarrow>
               nLower = 0 \<and>
               (case db a (SrcKey src (Some (DatElemMatch (chunk a) Gte s))) of
                  Inl err \<Rightarrow> True
                | Inr nUpper \<Rightarrow> False)))"


section \<open>Auxiliary notions for the statements\<close>

text \<open>
  The index expression \<^verbatim>\<open>util.Round(p*float64(tsLength-1))\<close> of the source, as a function
  of \<open>p\<close> and of the timestamp list.
\<close>

definition quartileIndex :: "rat \<Rightarrow> int list \<Rightarrow> int" where
  "quartileIndex p ts = Round (fmul p (float64 (int (length ts) - 2)))"

text \<open>The score of the pair record that is handed to the callback, if there is one.\<close>

definition emittedScore :: "analyzer \<Rightarrow> Input \<Rightarrow> f64 option" where
  "emittedScore a entry =
     (case analyzeEntry a entry of
        Inl p \<Rightarrow> None
      | Inr u \<Rightarrow> (case query (beacon u) of
                    Some (SetBeacon doc) \<Rightarrow> Some (set_score doc)
                  | _ \<Rightarrow> None))"

text \<open>
  The \<^verbatim>\<open>float64\<close> that a decimal with three places denotes: \<open>decimal3 667\<close> is the
  constant \<^verbatim>\<open>0.667\<close>.
\<close>

definition decimal3 :: "int \<Rightarrow> rat" where
  "decimal3 n = rnd (of_int n / 1000)"

text \<open>
  The window of the specification's scenarios (8): \<open>tsMin = 0\<close>, \<open>tsMax = 36000\<close>,
  \<open>chunk = 0\<close>, here with an empty hosts collection; and an input of those scenarios
  with its timestamps and connection count.
\<close>

definition scenarioAnalyzer :: analyzer where
  "scenarioAnalyzer = \<lparr>tsMin = 0, tsMax = 36000, chunk = 0, db = store_count []\<rparr>"

definition scenarioInput :: "int list option \<Rightarrow> int \<Rightarrow> Input" where
  "scenarioInput ts c =
     \<lparr>Hosts = \<lparr>SrcIP = ''10.0.0.1'', SrcNetworkName = ''lan'', FQDN = ''example.com''\<rparr>,
      TsList = ts, ConnectionCount = c, Proxy = ''10.0.0.254''\<rparr>"

text \<open>A session whose every query returns an error.\<close>

definition failingSession :: "selector \<Rightarrow> db_error + int" where
  "failingSession sel = Inl (DbError ''connection refused'')"

section \<open>The statistics kernel in the words of the specification\<close>

text \<open>
  Specification 4.A, steps 1, 2, 4 and 5, over the integers: the deltas
  \<open>tsList[i+1] - tsList[i]\<close>, sorted ascending; with \<open>m = n - 1\<close>, the values at the
  indices \<open>round(p (m - 1))\<close>; the deviations \<open>|diff[i] - Q2|\<close>, sorted, and the value at
  the index \<open>round(0.5 (m - 1))\<close>; the range \<open>diff[m - 1] - diff[0]\<close>.
\<close>

definition spec_deltas :: "int list \<Rightarrow> int list" where
  "spec_deltas ts = map (\<lambda>i. ts ! (i + 1) - ts ! i) [0..<length ts - 1]"

definition spec_diff :: "int list \<Rightarrow> int list" where
  "spec_diff ts = sort (spec_deltas ts)"

definition spec_index :: "rat \<Rightarrow> int list \<Rightarrow> nat" where
  "spec_index p ts = nat (Round (p * (of_int (int (length ts) - 1) - 1)))"

definition spec_quartile :: "rat \<Rightarrow> int list \<Rightarrow> int" where
  "spec_quartile p ts = spec_diff ts ! spec_index p ts"

definition spec_devs :: "int list \<Rightarrow> int list" where
  "spec_devs ts = sort (map (\<lambda>d. \<bar>d - spec_quartile (1 / 2) ts\<bar>) (spec_diff ts))"

definition spec_dispersion :: "int list \<Rightarrow> int" where
  "spec_dispersion ts = spec_devs ts ! spec_index (1 / 2) ts"

definition spec_range :: "int list \<Rightarrow> int" where
  "spec_range ts = spec_diff ts ! (length ts - 1 - 1) - spec_diff ts ! 0"

section \<open>Properties of the host-max reconciler\<close>

lemma filter_Nil_list_ex: "(filter P xs = []) = (\<not> list_ex P xs)"
  by (simp add: filter_empty_conv list_ex_iff)

lemma exact_count:
  "list_ex (matches (SrcKey src (Some (DatMbproxy fqdn)))) st = has_fqdn st src fqdn"
  by (simp add: has_fqdn_def list_ex_iff)

lemma elem_matches_Gte:
  "elem_matches (DatElemMatch c Gte s) e =
     (cid e = Some c \<and> (case max_beacon_proxy_score e of None \<Rightarrow> False | Some v \<Rightarrow> f64_le s v))"
  by (cases "max_beacon_proxy_score e") simp_all

lemma elem_matches_Lte:
  "elem_matches (DatElemMatch c Lte s) e =
     (cid e = Some c \<and> (case max_beacon_proxy_score e of None \<Rightarrow> False | Some v \<Rightarrow> f64_le v s))"
  by (cases "max_beacon_proxy_score e") simp_all

lemma upper_count:
  "list_ex (matches (SrcKey src (Some (DatElemMatch c Gte s)))) st = has_upper st src c s"
  by (simp add: has_upper_def list_ex_iff elem_matches_Gte del: elem_matches.simps(2))

text \<open>
  The lower-match query of the source does not mention the fqdn. Once the exact-match
  query has found nothing in the same store, every element it finds has another fqdn.
\<close>

lemma lower_count:
  "\<not> has_fqdn st src fqdn \<Longrightarrow>
   list_ex (matches (SrcKey src (Some (DatElemMatch c Lte s)))) st = has_lower_other st src c s fqdn"
  by (auto simp add: has_fqdn_def has_lower_other_def list_ex_iff elem_matches_Lte
      simp del: elem_matches.simps(2))

text \<open>
  C2. Against a fixed store that answers every query, the reconciler decides in this
  order: if a \<^verbatim>\<open>dat\<close> element of the source host has this fqdn (in any chunk), a replace
  that sets score, fqdn and chunk on the matched element, whatever the score; otherwise,
  if an element of this chunk has a score at most the new one and another fqdn, a
  replace on that element; otherwise an insert of a new element exactly when no element
  of this chunk has a score at least the new one, and no update otherwise.
\<close>

theorem reconciler_decides:
  "hostBeaconQuery (a\<lparr>db := store_count st\<rparr>) s src fqdn =
     (if has_fqdn st src fqdn then
        \<lparr>selector = Some (SrcKey src (Some (DatMbproxy fqdn))),
         query = Some (SetDatPositional s fqdn (chunk a))\<rparr>
      else if has_lower_other st src (chunk a) s fqdn then
        \<lparr>selector = Some (SrcKey src (Some (DatElemMatch (chunk a) Lte s))),
         query = Some (SetDatPositional s fqdn (chunk a))\<rparr>
      else if \<not> has_upper st src (chunk a) s then
        \<lparr>selector = Some (SrcKey src None), query = Some (PushDat s fqdn (chunk a))\<rparr>
      else noUpdate)"
proof (cases "has_fqdn st src fqdn")
  case True
  then show ?thesis
    by (simp add: hostBeaconQuery_def store_count_def filter_Nil_list_ex
        exact_count Let_def del: matches.simps)
next
  case False
  then show ?thesis
    by (simp add: hostBeaconQuery_def store_count_def filter_Nil_list_ex
        exact_count upper_count lower_count Let_def del: matches.simps)
qed

lemma hostBeaconQuery_error:
  "query_fails a s src fqdn \<Longrightarrow> hostBeaconQuery a s src fqdn = noUpdate"
  by (auto simp add: query_fails_def hostBeaconQuery_def Let_def split: sum.splits)

section \<open>Properties of the strobe branch\<close>

text \<open>
  C5. For an entry whose \<^verbatim>\<open>TsList\<close> is absent, the update handed to the callback holds
  one sub-update, the uconnproxy update, which sets \<^verbatim>\<open>strobeFQDN\<close> to true and selects by
  the pair identifier; the pair-record update and the host-max update are empty.
\<close>

theorem strobe_only_uconnproxy:
  "analyzeEntry a (entry\<lparr>TsList := None\<rparr>) =
     Inr \<lparr>beacon = noUpdate, hostBeacon = noUpdate,
          uconnproxy = \<lparr>selector = Some (PairKey (Hosts entry)),
                        query = Some (SetStrobeFQDN True)\<rparr>\<rparr>"
  by (simp add: analyzeEntry_def)

section \<open>Properties of the float64 model\<close>

lemma two_powi_pos: "0 < (2::rat) powi n"
  by (simp add: zero_less_power_int)

lemma two_powi_mono: "m \<le> n \<Longrightarrow> (2::rat) powi m \<le> 2 powi n"
  by (rule power_int_increasing) simp_all

lemma two_powi_strict_mono: "m < n \<Longrightarrow> (2::rat) powi m < 2 powi n"
  by (rule power_int_strict_increasing) simp_all

lemma two_powi_less_cancel: "(2::rat) powi m < 2 powi n \<Longrightarrow> m < n"
  using two_powi_mono [of n m] by (cases "m < n") auto

lemma two_powi_Suc: "(2::rat) powi (n + 1) = 2 * 2 powi n"
  by (simp add: power_int_add)

lemma bitlen_powi:
  assumes "0 < a"
  shows "(2::rat) powi (bitlen a - 1) \<le> of_int a" and "of_int a < (2::rat) powi bitlen a"
proof -
  from bitlen_bounds [OF assms]
  have lo: "2 ^ nat (bitlen a - 1) \<le> a" and hi: "a < 2 ^ nat (bitlen a)" by simp_all
  have pos: "1 \<le> bitlen a" using assms by (simp add: bitlen_alt_def)
  have "(2::rat) powi (bitlen a - 1) = 2 ^ nat (bitlen a - 1)"
    using pos by (simp add: power_int_def)
  also have "\<dots> = of_int (2 ^ nat (bitlen a - 1))" by simp
  also have "\<dots> \<le> of_int a" using lo by (simp only: of_int_le_iff)
  finally show "(2::rat) powi (bitlen a - 1) \<le> of_int a" .
  have "(of_int a :: rat) < of_int (2 ^ nat (bitlen a))" using hi by (simp only: of_int_less_iff)
  also have "\<dots> = 2 powi bitlen a" using pos by (simp add: power_int_def)
  finally show "of_int a < (2::rat) powi bitlen a" .
qed

lemma expo_bounds:
  assumes "q \<noteq> 0"
  shows "2 powi expo q \<le> \<bar>q\<bar>" and "\<bar>q\<bar> < 2 powi (expo q + 1)"
proof -
  obtain a b where ab: "quotient_of q = (a, b)" by (cases "quotient_of q")
  then have bpos: "0 < b" and q: "q = of_int a / of_int b"
    by (simp_all add: quotient_of_denom_pos quotient_of_div)
  have a0: "a \<noteq> 0" using assms q by auto
  then have apos: "0 < \<bar>a\<bar>" by simp
  define e where "e = bitlen \<bar>a\<bar> - bitlen b"
  have absq: "\<bar>q\<bar> = of_int \<bar>a\<bar> / of_int b" using q bpos by simp
  have bq: "(0::rat) < of_int b" using bpos by simp
  have "\<bar>q\<bar> * of_int b = of_int \<bar>a\<bar>" using absq bq by simp
  have up: "\<bar>q\<bar> < 2 powi (e + 1)"
  proof -
    have "of_int \<bar>a\<bar> < (2::rat) powi bitlen \<bar>a\<bar>" by (rule bitlen_powi [OF apos])
    also have "\<dots> = 2 powi (e + 1) * 2 powi (bitlen b - 1)"
      by (simp add: e_def flip: power_int_add)
    also have "\<dots> \<le> 2 powi (e + 1) * of_int b"
      by (rule mult_left_mono [OF bitlen_powi(1) [OF bpos]]) simp
    finally show ?thesis using bq absq by (simp add: pos_divide_less_eq)
  qed
  have lo: "2 powi (e - 1) \<le> \<bar>q\<bar>"
  proof -
    have "2 powi (e - 1) * of_int b \<le> (2::rat) powi (e - 1) * 2 powi bitlen b"
      by (rule mult_left_mono [OF less_imp_le [OF bitlen_powi(2) [OF bpos]]]) simp
    also have "\<dots> = 2 powi (bitlen \<bar>a\<bar> - 1)"
      by (simp add: e_def flip: power_int_add)
    also have "\<dots> \<le> of_int \<bar>a\<bar>" by (rule bitlen_powi [OF apos])
    finally show ?thesis using bq absq by (simp add: pos_le_divide_eq)
  qed
  have ex: "expo q = (if 2 powi e \<le> \<bar>q\<bar> then e else e - 1)"
    by (simp add: expo_def ab e_def Let_def)
  show "2 powi expo q \<le> \<bar>q\<bar>" using lo by (simp add: ex)
  show "\<bar>q\<bar> < 2 powi (expo q + 1)" using up by (auto simp add: ex not_le)
qed

lemma expo_unique:
  assumes "2 powi e \<le> \<bar>q\<bar>" and "\<bar>q\<bar> < 2 powi (e + 1)"
  shows "expo q = e"
proof -
  have "0 < \<bar>q\<bar>" by (rule less_le_trans [OF two_powi_pos assms(1)])
  then have "q \<noteq> 0" by simp
  note b = expo_bounds [OF this]
  have "(2::rat) powi e < 2 powi (expo q + 1)" using assms(1) b(2) by simp
  then have 1: "e < expo q + 1" by (rule two_powi_less_cancel)
  have "(2::rat) powi expo q < 2 powi (e + 1)" using assms(2) b(1) by simp
  then have 2: "expo q < e + 1" by (rule two_powi_less_cancel)
  from 1 2 show ?thesis by simp
qed

lemma expo_minus [simp]: "expo (- q) = expo q"
proof (cases "q = 0")
  case True then show ?thesis by simp
next
  case False
  from expo_bounds [OF this] show ?thesis by (intro expo_unique) simp_all
qed

lemma round_even_cases:
  "round_even y = \<lfloor>y\<rfloor> \<or> round_even y = \<lfloor>y\<rfloor> + 1"
  by (simp add: round_even_def Let_def)

lemma round_even_of_int [simp]: "round_even (of_int k) = k"
  by (simp add: round_even_def)

lemma round_even_ge_floor: "\<lfloor>y\<rfloor> \<le> round_even y"
  using round_even_cases [of y] by auto

lemma round_even_le_ceiling: "round_even y \<le> \<lceil>y\<rceil>"
proof (cases "y = of_int \<lfloor>y\<rfloor>")
  case True
  then have "round_even y = \<lfloor>y\<rfloor>" by (metis round_even_of_int)
  then show ?thesis by (simp add: floor_le_ceiling)
next
  case False
  then have "\<lceil>y\<rceil> = \<lfloor>y\<rfloor> + 1" by (simp add: ceiling_altdef)
  then show ?thesis using round_even_cases [of y] by auto
qed

lemma round_even_error: "\<bar>of_int (round_even y) - y\<bar> \<le> 1 / 2"
proof -
  have "of_int \<lfloor>y\<rfloor> \<le> y" "y < of_int \<lfloor>y\<rfloor> + 1" by linarith+
  then show ?thesis by (auto simp add: round_even_def Let_def abs_le_iff)
qed

lemma round_even_mono:
  assumes "x \<le> y"
  shows "round_even x \<le> round_even y"
proof (cases "\<lfloor>x\<rfloor> = \<lfloor>y\<rfloor>")
  case True
  then show ?thesis using assms by (auto simp add: round_even_def Let_def)
next
  case False
  then have "\<lfloor>x\<rfloor> + 1 \<le> \<lfloor>y\<rfloor>" using floor_mono [OF assms] by simp
  then show ?thesis using round_even_cases [of x] round_even_ge_floor [of y] by auto
qed

lemma round_even_minus: "round_even (- y) = - round_even y"
proof (cases "y = of_int \<lfloor>y\<rfloor>")
  case True
  then obtain k where "y = of_int k" ..
  then show ?thesis by (simp flip: of_int_minus)
next
  case False
  then have f: "\<lfloor>- y\<rfloor> = - \<lfloor>y\<rfloor> - 1"
    by (simp add: floor_minus ceiling_altdef)
  have r: "y - of_int \<lfloor>y\<rfloor> \<noteq> 0" using False by simp
  show ?thesis
    by (auto simp add: round_even_def f Let_def)
qed

lemma rnd_0 [simp]: "rnd 0 = 0"
  by (simp add: rnd_def)

lemma rnd_minus: "rnd (- q) = - rnd q"
  by (simp add: rnd_def Let_def round_even_minus)

lemma pow52_ulp: "(2::rat) ^ 52 * 2 powi (e - 52) = 2 powi e"
proof -
  have "(2::rat) powi 52 * 2 powi (e - 52) = 2 powi (52 + (e - 52))"
    by (subst power_int_add) simp_all
  then show ?thesis by (simp only: power_int_numeral add_diff_eq add_diff_cancel_left')
qed

lemma pow53_ulp: "(2::rat) ^ 53 * 2 powi (e - 52) = 2 powi (e + 1)"
proof -
  have "(2::rat) powi 53 * 2 powi (e - 52) = 2 powi (53 + (e - 52))"
    by (subst power_int_add) simp_all
  moreover have "53 + (e - 52) = e + 1" by simp
  ultimately show ?thesis by (simp only: power_int_numeral)
qed

text \<open>The scaled significand of a positive number lies between \<open>2 ^ 52\<close> and \<open>2 ^ 53\<close>.\<close>

lemma significand_bounds:
  assumes "0 < q"
  shows "2 ^ 52 \<le> q / 2 powi (expo q - 52)" and "q / 2 powi (expo q - 52) < 2 ^ 53"
proof -
  have q0: "q \<noteq> 0" using assms by simp
  have lo: "2 powi expo q \<le> q" and hi: "q < 2 powi (expo q + 1)"
    using expo_bounds [OF q0] assms by simp_all
  show "2 ^ 52 \<le> q / 2 powi (expo q - 52)"
    using lo by (simp only: pos_le_divide_eq [OF two_powi_pos] pow52_ulp)
  show "q / 2 powi (expo q - 52) < 2 ^ 53"
    using hi by (simp only: pos_divide_less_eq [OF two_powi_pos] pow53_ulp)
qed

lemma rnd_pos_bounds:
  assumes "0 < q"
  shows "2 powi expo q \<le> rnd q" and "rnd q \<le> 2 powi (expo q + 1)"
proof -
  let ?u = "(2::rat) powi (expo q - 52)"
  have r: "rnd q = of_int (round_even (q / ?u)) * ?u"
    using assms by (simp add: rnd_def Let_def)
  have "round_even (of_int (2 ^ 52)) \<le> round_even (q / ?u)"
    by (rule round_even_mono) (use significand_bounds(1) [OF assms] in simp)
  then have lo: "(2::int) ^ 52 \<le> round_even (q / ?u)" by (simp only: round_even_of_int)
  have "round_even (q / ?u) \<le> round_even (of_int (2 ^ 53))"
    by (rule round_even_mono) (use significand_bounds(2) [OF assms] in simp)
  then have hi: "round_even (q / ?u) \<le> (2::int) ^ 53" by (simp only: round_even_of_int)
  have "(2::rat) powi expo q = 2 ^ 52 * ?u" by (simp only: pow52_ulp)
  also have "\<dots> = of_int (2 ^ 52) * ?u" by simp
  also have "\<dots> \<le> of_int (round_even (q / ?u)) * ?u"
    by (rule mult_right_mono) (use lo in \<open>simp_all only: of_int_le_iff\<close>, simp)
  finally show "2 powi expo q \<le> rnd q" by (simp only: r)
  have "of_int (round_even (q / ?u)) * ?u \<le> of_int (2 ^ 53) * ?u"
    by (rule mult_right_mono) (use hi in \<open>simp_all only: of_int_le_iff\<close>, simp)
  also have "\<dots> = 2 ^ 53 * ?u" by simp
  also have "\<dots> = 2 powi (expo q + 1)" by (simp only: pow53_ulp)
  finally show "rnd q \<le> 2 powi (expo q + 1)" by (simp only: r)
qed

lemma rnd_pos: "0 < q \<Longrightarrow> 0 < rnd q"
  by (rule less_le_trans [OF two_powi_pos rnd_pos_bounds(1)])

lemma rnd_neg: "q < 0 \<Longrightarrow> rnd q < 0"
  using rnd_pos [of "- q"] by (simp add: rnd_minus)

lemma rnd_nonneg: "0 \<le> q \<Longrightarrow> 0 \<le> rnd q"
  using rnd_pos [of q] by (cases "q = 0") simp_all

lemma rnd_eq_0_iff [simp]: "rnd q = 0 \<longleftrightarrow> q = 0"
  using rnd_pos [of q] rnd_neg [of q] by (cases q "0::rat" rule: linorder_cases) auto

lemma expo_mono:
  assumes "0 < x" "x \<le> y"
  shows "expo x \<le> expo y"
proof -
  have "x \<noteq> 0" "y \<noteq> 0" using assms by simp_all
  then have "2 powi expo x \<le> \<bar>x\<bar>" "\<bar>y\<bar> < 2 powi (expo y + 1)"
    by (simp_all add: expo_bounds)
  then have "(2::rat) powi expo x < 2 powi (expo y + 1)" using assms by simp
  then have "expo x < expo y + 1" by (rule two_powi_less_cancel)
  then show ?thesis by simp
qed

lemma rnd_mono_pos:
  assumes "0 < x" "x \<le> y"
  shows "rnd x \<le> rnd y"
proof (cases "expo x = expo y")
  case True
  let ?u = "(2::rat) powi (expo y - 52)"
  have "x / ?u \<le> y / ?u" using assms by (simp add: divide_right_mono)
  then have "round_even (x / ?u) \<le> round_even (y / ?u)" by (rule round_even_mono)
  then have "(of_int (round_even (x / ?u)) :: rat) * ?u \<le> of_int (round_even (y / ?u)) * ?u"
    by (intro mult_right_mono) simp_all
  then show ?thesis using assms True by (simp add: rnd_def Let_def)
next
  case False
  then have "expo x + 1 \<le> expo y" using expo_mono [OF assms] by simp
  then have "(2::rat) powi (expo x + 1) \<le> 2 powi expo y" by (rule two_powi_mono)
  moreover have "rnd x \<le> 2 powi (expo x + 1)" using assms by (simp add: rnd_pos_bounds)
  moreover have "2 powi expo y \<le> rnd y" using assms by (simp add: rnd_pos_bounds)
  ultimately show ?thesis by simp
qed

lemma rnd_mono:
  assumes "x \<le> y"
  shows "rnd x \<le> rnd y"
proof -
  consider "0 < x" | "x \<le> 0" "0 \<le> y" | "y < 0" using assms by linarith
  then show ?thesis
  proof cases
    case 1
    then show ?thesis using assms by (rule rnd_mono_pos)
  next
    case 2
    have "rnd x \<le> 0" using rnd_nonneg [of "- x"] 2 by (simp add: rnd_minus)
    moreover have "0 \<le> rnd y" using 2 by (simp add: rnd_nonneg)
    ultimately show ?thesis by simp
  next
    case 3
    then have "rnd (- y) \<le> rnd (- x)" using assms by (intro rnd_mono_pos) simp_all
    then show ?thesis by (simp add: rnd_minus)
  qed
qed

text \<open>A number with at most 53 significant bits is not changed by rounding.\<close>

lemma rnd_exact:
  assumes "\<bar>k\<bar> < 2 ^ 53"
  shows "rnd (of_int k * 2 powi j) = of_int k * 2 powi j"
proof (cases "k = 0")
  case True
  then show ?thesis by simp
next
  case False
  let ?q = "of_int k * (2::rat) powi j"
  have q0: "?q \<noteq> 0" using False by simp
  have "2 powi expo ?q \<le> \<bar>?q\<bar>" by (rule expo_bounds [OF q0])
  also have "\<bar>?q\<bar> = of_int \<bar>k\<bar> * 2 powi j" by (simp add: abs_mult)
  also have "\<dots> < of_int (2 ^ 53) * 2 powi j"
    by (rule mult_strict_right_mono) (use assms in \<open>simp_all only: of_int_less_iff\<close>, simp)
  also have "\<dots> = 2 powi (53 + j)" by (simp add: power_int_add)
  finally have e: "expo ?q < 53 + j" by (rule two_powi_less_cancel)
  define n where "n = nat (j - (expo ?q - 52))"
  have n: "j - (expo ?q - 52) = int n" using e by (simp add: n_def)
  have "?q / 2 powi (expo ?q - 52) = of_int k * 2 powi (j - (expo ?q - 52))"
    by (simp add: power_int_diff)
  also have "\<dots> = of_int (k * 2 ^ n)" by (simp add: n)
  finally have "round_even (?q / 2 powi (expo ?q - 52)) = k * 2 ^ n"
    by (simp only: round_even_of_int)
  then have "rnd ?q = of_int (k * 2 ^ n) * 2 powi (expo ?q - 52)"
    using q0 by (simp add: rnd_def Let_def)
  also have "\<dots> = of_int k * (2 powi (int n) * 2 powi (expo ?q - 52))" by simp
  also have "2 powi (int n) * (2::rat) powi (expo ?q - 52) = 2 powi j"
    unfolding n [symmetric] by (simp flip: power_int_add)
  finally show ?thesis .
qed

lemma rnd_of_int: "\<bar>k\<bar> < 2 ^ 53 \<Longrightarrow> rnd (of_int k) = of_int k"
  using rnd_exact [of k 0] by simp

lemma rnd_error: "\<bar>rnd q - q\<bar> \<le> \<bar>q\<bar> / 2 ^ 53"
proof (cases "q = 0")
  case True
  then show ?thesis by simp
next
  case False
  let ?u = "(2::rat) powi (expo q - 52)"
  have "rnd q - q = (of_int (round_even (q / ?u)) - q / ?u) * ?u"
    using False by (simp add: rnd_def Let_def algebra_simps)
  then have "\<bar>rnd q - q\<bar> = \<bar>of_int (round_even (q / ?u)) - q / ?u\<bar> * ?u"
    by (simp add: abs_mult)
  also have "\<dots> \<le> 1 / 2 * ?u"
    by (rule mult_right_mono [OF round_even_error]) simp
  also have "\<dots> = 2 powi expo q / 2 ^ 53"
    by (simp add: power_int_diff)
  also have "\<dots> \<le> \<bar>q\<bar> / 2 ^ 53"
    by (rule divide_right_mono [OF expo_bounds(1) [OF False]]) simp
  finally show ?thesis .
qed

section \<open>The loops of the histogram\<close>

lemma and_then_Inr [simp]: "and_then (Inr v) f = f v"
  by (simp add: and_then_def)

lemma and_then_Inl [simp]: "and_then (Inl p) f = Inl p"
  by (simp add: and_then_def)

lemma index_in_range: "0 \<le> i \<Longrightarrow> i < int (length xs) \<Longrightarrow> index xs i = Inr (xs ! nat i)"
  by (simp add: index_def)

lemma makeSlice_nonneg: "0 \<le> n \<Longrightarrow> makeSlice n = Inr (replicate (nat n) 0)"
  by (simp add: makeSlice_def)

lemma get_count_incr: "get_count (incr m k) v = get_count m v + (if v = k then 1 else 0)"
  by (simp add: get_count_def incr_def)

lemma get_count_empty: "get_count Map.empty v = 0"
  by (simp add: get_count_def)

lemma dedup_loop_fst:
  "fst (dedup_loop l res cnts xs) = res @ tl (remdups_adj (l # xs))"
  by (induction xs arbitrary: l res cnts) simp_all

lemma dedup_loop_snd:
  "get_count (snd (dedup_loop l res cnts xs)) v = get_count cnts v + int (count_list xs v)"
  by (induction xs arbitrary: l res cnts) (simp_all add: get_count_incr)

lemma countAndRemoveConsecutiveDuplicates_Cons:
  "\<exists>cm. countAndRemoveConsecutiveDuplicates (x # xs) = Inr (remdups_adj (x # xs), cm) \<and>
        (\<forall>v. get_count cm v = int (count_list (x # xs) v))"
proof -
  obtain r cm where d: "dedup_loop x [x] (incr Map.empty x) xs = (r, cm)"
    by (cases "dedup_loop x [x] (incr Map.empty x) xs")
  have "r = [x] @ tl (remdups_adj (x # xs))" using dedup_loop_fst [of x "[x]" "incr Map.empty x" xs] d by simp
  moreover have "remdups_adj (x # xs) \<noteq> []" by simp
  moreover have "hd (remdups_adj (x # xs)) = x" by (simp add: hd_remdups_adj)
  ultimately have r: "r = remdups_adj (x # xs)"
    by (metis append_Cons append_Nil hd_Cons_tl)
  have "\<And>v. get_count cm v = int (count_list (x # xs) v)"
    using dedup_loop_snd [of x "[x]" "incr Map.empty x" xs] d
    by (simp add: get_count_incr get_count_empty)
  then show ?thesis by (simp add: countAndRemoveConsecutiveDuplicates_def d r)
qed

text \<open>The loop of createCountMap.\<close>

lemma count_loop_arr:
  "length arr = i + length ds \<Longrightarrow>
   fst (count_loop cm i ds arr mode mx) = take i arr @ map (get_count cm) ds"
proof (induction ds arbitrary: i arr mode mx)
  case Nil
  then show ?case by simp
next
  case (Cons d ds)
  have len: "length (arr[i := get_count cm d]) = Suc i + length ds" using Cons.prems by simp
  have t: "take (Suc i) (arr[i := get_count cm d]) = take i arr @ [get_count cm d]"
    using Cons.prems by (simp add: take_Suc_conv_app_nth)
  show ?case
    using Cons.IH [OF len] t by (simp add: Let_def)
qed

lemma count_loop_mode:
  assumes "mx = get_count cm mode" and "sorted ds" and "\<forall>d\<in>set ds. mode \<le> d"
  shows "case snd (count_loop cm i ds arr mode mx) of (mode', mx') \<Rightarrow>
           mx' = get_count cm mode' \<and> (\<forall>d\<in>set ds. get_count cm d \<le> mx') \<and>
           ((mode' = mode \<and> mx' = mx) \<or>
            (mode' \<in> set ds \<and> mx < mx' \<and> (\<forall>d\<in>set ds. get_count cm d = mx' \<longrightarrow> mode' \<le> d)))"
  using assms
proof (induction ds arbitrary: i arr mode mx)
  case Nil
  then show ?case by simp
next
  case (Cons d ds)
  show ?case
  proof (cases "get_count cm d > mx")
    case True
    have "case snd (count_loop cm (Suc i) ds (arr[i := get_count cm d]) d (get_count cm d)) of
            (mode', mx') \<Rightarrow>
           mx' = get_count cm mode' \<and> (\<forall>x\<in>set ds. get_count cm x \<le> mx') \<and>
           ((mode' = d \<and> mx' = get_count cm d) \<or>
            (mode' \<in> set ds \<and> get_count cm d < mx' \<and> (\<forall>x\<in>set ds. get_count cm x = mx' \<longrightarrow> mode' \<le> x)))"
      using Cons.prems by (intro Cons.IH) auto
    then show ?thesis using True Cons.prems by (auto simp add: Let_def split: prod.splits)
  next
    case False
    have "case snd (count_loop cm (Suc i) ds (arr[i := get_count cm d]) mode mx) of
            (mode', mx') \<Rightarrow>
           mx' = get_count cm mode' \<and> (\<forall>x\<in>set ds. get_count cm x \<le> mx') \<and>
           ((mode' = mode \<and> mx' = mx) \<or>
            (mode' \<in> set ds \<and> mx < mx' \<and> (\<forall>x\<in>set ds. get_count cm x = mx' \<longrightarrow> mode' \<le> x)))"
      using Cons.prems by (intro Cons.IH) auto
    then show ?thesis using False Cons.prems by (auto simp add: Let_def split: prod.splits)
  qed
qed

lemma createCountMap_sorted:
  assumes "xs \<noteq> []" and "sorted xs"
  shows "\<exists>ic mo mc. createCountMap xs = Inr (remdups_adj xs, ic, mo, mc) \<and>
           ic = map (\<lambda>d. int (count_list xs d)) (remdups_adj xs) \<and>
           mo \<in> set xs \<and> mc = int (count_list xs mo) \<and>
           (\<forall>d\<in>set xs. int (count_list xs d) \<le> mc) \<and>
           (\<forall>d\<in>set xs. int (count_list xs d) = mc \<longrightarrow> mo \<le> d)"
proof -
  obtain x rest where xs: "xs = x # rest" using assms(1) by (cases xs) auto
  let ?ds = "remdups_adj xs"
  obtain cm where cm: "countAndRemoveConsecutiveDuplicates xs = Inr (?ds, cm)"
    and cnt: "\<And>v. get_count cm v = int (count_list xs v)"
    using countAndRemoveConsecutiveDuplicates_Cons [of x rest] unfolding xs by blast
  have ds_ne: "?ds \<noteq> []" using assms(1) by simp
  have ds_sorted: "sorted ?ds" using assms(2) by (rule sorted_remdups_adj)
  have ds_set: "set ?ds = set xs" by simp
  obtain d0 ds' where ds: "?ds = d0 # ds'" using ds_ne by (cases ?ds) auto
  have d0_min: "\<forall>d\<in>set ?ds. d0 \<le> d" using ds_sorted unfolding ds by auto
  have idx: "index ?ds 0 = Inr d0" by (simp add: index_def ds)
  have mk: "makeSlice (int (length ?ds)) = Inr (replicate (length ?ds) 0)"
    by (simp add: makeSlice_def)
  let ?arr = "replicate (length ?ds) (0::int)"
  obtain arr' mo mc where loop: "count_loop cm 0 ?ds ?arr d0 (get_count cm d0) = (arr', mo, mc)"
    by (cases "count_loop cm 0 ?ds ?arr d0 (get_count cm d0)") auto
  have res: "createCountMap xs = Inr (?ds, arr', mo, mc)"
    by (simp add: createCountMap_def cm mk idx loop)
  have arr: "arr' = map (get_count cm) ?ds"
    using count_loop_arr [of ?arr 0 ?ds cm d0 "get_count cm d0"] loop by simp
  have m: "mc = get_count cm mo \<and> (\<forall>d\<in>set ?ds. get_count cm d \<le> mc) \<and>
           ((mo = d0 \<and> mc = get_count cm d0) \<or>
            (mo \<in> set ?ds \<and> get_count cm d0 < mc \<and> (\<forall>d\<in>set ?ds. get_count cm d = mc \<longrightarrow> mo \<le> d)))"
    using count_loop_mode [OF refl ds_sorted d0_min, of cm 0 ?arr] unfolding loop
    by (simp only: snd_conv prod.case) blast
  have d0_in: "d0 \<in> set ?ds" by (simp add: ds)
  have mo_in: "mo \<in> set xs" using m d0_in ds_set by auto
  have tie: "\<forall>d\<in>set xs. int (count_list xs d) = mc \<longrightarrow> mo \<le> d"
    using m d0_min ds_set by (auto simp add: cnt)
  show ?thesis
    using res arr m mo_in tie ds_set by (auto simp add: cnt)
qed

lemma strict_sorted_remdups_adj:
  "sorted xs \<Longrightarrow> sorted_wrt (<) (remdups_adj xs)"
proof (induction xs rule: remdups_adj.induct)
  case (3 x y xs)
  then show ?case by (auto simp add: less_le)
qed simp_all

lemma createCountMap_counts_sum:
  "sum_list (map (\<lambda>d. int (count_list xs d)) (remdups_adj (sort xs))) = int (length xs)"
proof -
  let ?ds = "remdups_adj (sort xs)"
  have dist: "distinct ?ds"
    using strict_sorted_remdups_adj [of "sort xs"] by (simp add: strict_sorted_iff)
  have "sum_list (map (\<lambda>d. int (count_list xs d)) ?ds) = (\<Sum>d\<in>set ?ds. int (count_list xs d))"
    by (rule sum_list_distinct_conv_sum_set [OF dist])
  also have "\<dots> = int (\<Sum>d\<in>set xs. count_list xs d)" by simp
  also have "\<dots> = int (length xs)"
    by (simp add: sum_count_set)
  finally show ?thesis .
qed

section \<open>The index expressions and the result of the statistics\<close>

lemma Round_nonneg: "0 \<le> x \<Longrightarrow> 0 \<le> Round x"
  by (simp add: Round_def)

lemma Round_upper: "0 \<le> x \<Longrightarrow> x < of_int k + 1 / 2 \<Longrightarrow> Round x \<le> k"
  by (simp add: Round_def floor_le_iff)

lemma float64_nonneg: "0 \<le> k \<Longrightarrow> 0 \<le> float64 k"
  by (simp add: float64_def rnd_nonneg)

lemma rnd_upper:
  assumes "0 \<le> q"
  shows "rnd q \<le> q * (1 + 1 / 2 ^ 53)"
proof -
  have "\<bar>rnd q - q\<bar> \<le> q / 2 ^ 53" using rnd_error [of q] assms by simp
  then have "rnd q \<le> q + q / 2 ^ 53" by linarith
  then show ?thesis by (simp add: algebra_simps)
qed

lemma quartile_index_bounds:
  assumes k: "0 \<le> k" and p: "0 \<le> p" "p \<le> 3 / 4"
  shows "0 \<le> Round (fmul p (float64 k))" and "Round (fmul p (float64 k)) \<le> k"
proof -
  let ?c = "1 + 1 / (2::rat) ^ 53"
  let ?K = "float64 k"
  have K0: "0 \<le> ?K" using k by (rule float64_nonneg)
  have y0: "0 \<le> fmul p ?K" using p K0 by (simp add: fmul_def rnd_nonneg)
  show "0 \<le> Round (fmul p ?K)" using y0 by (rule Round_nonneg)
  have kq: "(0::rat) \<le> of_int k" using k by simp
  have "?K \<le> of_int k * ?c" unfolding float64_def using kq by (rule rnd_upper)
  then have "p * ?K \<le> p * (of_int k * ?c)" using p by (intro mult_left_mono) simp_all
  then have "p * ?K * ?c \<le> p * (of_int k * ?c) * ?c" by (intro mult_right_mono) simp_all
  moreover have "fmul p ?K \<le> p * ?K * ?c"
    unfolding fmul_def using p K0 by (intro rnd_upper) simp
  ultimately have "fmul p ?K \<le> (p * (?c * ?c)) * of_int k" by (simp add: mult_ac)
  also have "\<dots> \<le> 1 * of_int k"
  proof (rule mult_right_mono [OF _ kq])
    have "p * (?c * ?c) \<le> 3 / 4 * (?c * ?c)" using p by (intro mult_right_mono) simp_all
    also have "\<dots> \<le> 1" by simp
    finally show "p * (?c * ?c) \<le> 1" .
  qed
  finally have "fmul p ?K < of_int k + 1 / 2" by simp
  with y0 show "Round (fmul p ?K) \<le> k" by (rule Round_upper)
qed

lemma length_deltas [simp]: "length (deltas ts) = length ts - 1"
  by (simp add: deltas_def)

lemma length_sortInt64 [simp]: "length (sortInt64 xs) = length xs"
  by (simp add: sortInt64_def)

lemma length_deviations [simp]: "length (deviations xs m) = length xs"
  by (simp add: deviations_def)

lemma sorted_sortInt64 [simp]: "sorted (sortInt64 xs)"
  by (simp add: sortInt64_def)

lemma quartileIndex_bounds:
  assumes "2 \<le> length ts" and "0 \<le> p" "p \<le> 3 / 4"
  shows "0 \<le> quartileIndex p ts" and "quartileIndex p ts < int (length ts) - 1"
proof -
  have k: "0 \<le> int (length ts) - 2" using assms(1) by simp
  show "0 \<le> quartileIndex p ts"
    unfolding quartileIndex_def using k assms(2,3) by (rule quartile_index_bounds)
  have "quartileIndex p ts \<le> int (length ts) - 2"
    unfolding quartileIndex_def using k assms(2,3) by (rule quartile_index_bounds)
  then show "quartileIndex p ts < int (length ts) - 1" by simp
qed

lemma statistics_fields:
  assumes n: "2 \<le> length ts"
  shows "\<exists>k. statistics ts = Inr k \<and>
           diff k = sortInt64 (deltas ts) \<and>
           tsLow k = diff k ! nat (quartileIndex (1 / 4) ts) \<and>
           tsMid k = diff k ! nat (quartileIndex (1 / 2) ts) \<and>
           tsHigh k = diff k ! nat (quartileIndex (3 / 4) ts) \<and>
           tsSkew k =
             (if i64 (tsHigh k - tsLow k) \<noteq> 0 \<and> tsMid k \<noteq> tsLow k \<and> tsMid k \<noteq> tsHigh k
              then fdiv (float64 (i64 (i64 (tsLow k + tsHigh k) - i64 (2 * tsMid k))))
                        (float64 (i64 (tsHigh k - tsLow k)))
              else 0) \<and>
           devs k = sortInt64 (deviations (diff k) (tsMid k)) \<and>
           tsMadm k = devs k ! nat (quartileIndex (1 / 2) ts) \<and>
           tsIntervalRange k = i64 (diff k ! (length ts - 2) - diff k ! 0) \<and>
           createCountMap (diff k) = Inr (intervals k, intervalCounts k, tsMode k, tsModeCount k)"
proof -
  let ?d = "sortInt64 (deltas ts)"
  let ?q1 = "quartileIndex (1 / 4) ts"
  let ?q2 = "quartileIndex (1 / 2) ts"
  let ?q3 = "quartileIndex (3 / 4) ts"
  let ?mid = "?d ! nat ?q2"
  let ?dv = "sortInt64 (deviations ?d ?mid)"
  have len: "int (length ?d) = int (length ts) - 1" using n by simp
  have mk: "makeSlice (int (length ts) - 1) = Inr (replicate (length ts - 1) 0)"
    using n by (auto simp add: makeSlice_def nat_diff_distrib)
  have i1: "index ?d ?q1 = Inr (?d ! nat ?q1)"
    using quartileIndex_bounds [OF n, of "1 / 4"] by (intro index_in_range) (simp_all add: len)
  have i2: "index ?d ?q2 = Inr ?mid"
    using quartileIndex_bounds [OF n, of "1 / 2"] by (intro index_in_range) (simp_all add: len)
  have i3: "index ?d ?q3 = Inr (?d ! nat ?q3)"
    using quartileIndex_bounds [OF n, of "3 / 4"] by (intro index_in_range) (simp_all add: len)
  have i4: "index ?dv ?q2 = Inr (?dv ! nat ?q2)"
    using quartileIndex_bounds [OF n, of "1 / 2"] by (intro index_in_range) (simp_all add: len)
  have i5: "index ?d (int (length ts) - 2) = Inr (?d ! (length ts - 2))"
    using n by (simp add: index_def nat_diff_distrib)
  have i6: "index ?d 0 = Inr (?d ! 0)"
    using n by (simp add: index_def)
  have "length ?d \<noteq> 0" using n by simp
  then have ne: "?d \<noteq> []" by (simp only: length_0_conv not_False_eq_True)
  obtain ic mo mc where cc: "createCountMap ?d = Inr (remdups_adj ?d, ic, mo, mc)"
    using createCountMap_sorted [OF ne sorted_sortInt64] by blast
  define k where "k =
    \<lparr>diff = ?d, tsLow = ?d ! nat ?q1, tsMid = ?mid, tsHigh = ?d ! nat ?q3,
     tsSkew = (if i64 (?d ! nat ?q3 - ?d ! nat ?q1) \<noteq> 0 \<and> ?mid \<noteq> ?d ! nat ?q1 \<and> ?mid \<noteq> ?d ! nat ?q3
               then fdiv (float64 (i64 (i64 (?d ! nat ?q1 + ?d ! nat ?q3) - i64 (2 * ?mid))))
                         (float64 (i64 (?d ! nat ?q3 - ?d ! nat ?q1)))
               else 0),
     devs = ?dv, tsMadm = ?dv ! nat ?q2,
     tsIntervalRange = i64 (?d ! (length ts - 2) - ?d ! 0),
     intervals = remdups_adj ?d, intervalCounts = ic, tsMode = mo, tsModeCount = mc\<rparr>"
  have "statistics ts = Inr k"
    unfolding statistics_def Let_def
    by (simp add: mk i1 [unfolded quartileIndex_def] i2 [unfolded quartileIndex_def]
        i3 [unfolded quartileIndex_def] i4 [unfolded quartileIndex_def] i5 i6 cc k_def
        quartileIndex_def)
  then show ?thesis
    by (intro exI [of _ k]) (simp add: k_def cc)
qed

section \<open>The update for an entry with timestamps, and scenario S1\<close>

lemma analyzeEntry_stats:
  assumes "TsList entry = Some ts" and "statistics ts = Inr k"
  shows "analyzeEntry a entry =
     Inr \<lparr>beacon = \<lparr>selector = Some (PairKey (Hosts entry)),
                     query = Some (SetBeacon
                          \<lparr>set_connection_count = ConnectionCount entry,
                           set_proxy = Proxy entry,
                           set_src_network_name = SrcNetworkName (Hosts entry),
                           set_ts_range = tsIntervalRange k,
                           set_ts_mode = tsMode k,
                           set_ts_mode_count = tsModeCount k,
                           set_ts_intervals = intervals k,
                           set_ts_interval_counts = intervalCounts k,
                           set_ts_dispersion = tsMadm k,
                           set_ts_skew = tsSkew k,
                           set_ts_conns_score = tsConnCountScore a (ConnectionCount entry),
                           set_ts_score = ceil3 (tsSum a (ConnectionCount entry) k),
                           set_tslist = ts,
                           set_score = ceil3 (tsSum a (ConnectionCount entry) k),
                           set_cid = chunk a,
                           set_strobeFQDN = False\<rparr>)\<rparr>,
          hostBeacon = hostBeaconQuery a (ceil3 (tsSum a (ConnectionCount entry) k))
                         (Unpair (Hosts entry)) (FQDN (Hosts entry)),
          uconnproxy = noUpdate\<rparr>"
  using assms by (simp add: analyzeEntry_def analyzeTimestamps_def Let_def)

lemma emittedScore_stats:
  assumes "TsList entry = Some ts" and "statistics ts = Inr k"
  shows "emittedScore a entry = Some (ceil3 (tsSum a (ConnectionCount entry) k))"
  by (simp add: emittedScore_def analyzeEntry_stats [OF assms])

text \<open>Scenario S1, step by step.\<close>

lemma S1_diff: "sortInt64 (deltas [0, 60, 120, 180, 240, 300]) = [60, 60, 60, 60, 60]"
  by code_simp

lemma S1_indices:
  "nat (quartileIndex (1 / 4) [0, 60, 120, 180, 240, 300]) = 1"
  "nat (quartileIndex (1 / 2) [0, 60, 120, 180, 240, 300]) = 2"
  "nat (quartileIndex (3 / 4) [0, 60, 120, 180, 240, 300]) = 3"
  by code_simp+

lemma S1_devs: "sortInt64 (deviations [60, 60, 60, 60, 60] 60) = [0, 0, 0, 0, 0]"
  by code_simp

lemma S1_statistics:
  "\<exists>k. statistics [0, 60, 120, 180, 240, 300] = Inr k \<and> tsSkew k = 0 \<and> tsMadm k = 0"
proof -
  have "2 \<le> length [0, 60, 120, 180, 240, 300 :: int]" by simp
  from statistics_fields [OF this] obtain k where
    k: "statistics [0, 60, 120, 180, 240, 300] = Inr k"
    and d: "diff k = [60, 60, 60, 60, 60]"
    and lo: "tsLow k = diff k ! 1" and mid: "tsMid k = diff k ! 2" and hi: "tsHigh k = diff k ! 3"
    and sk: "tsSkew k =
             (if i64 (tsHigh k - tsLow k) \<noteq> 0 \<and> tsMid k \<noteq> tsLow k \<and> tsMid k \<noteq> tsHigh k
              then fdiv (float64 (i64 (i64 (tsLow k + tsHigh k) - i64 (2 * tsMid k))))
                        (float64 (i64 (tsHigh k - tsLow k)))
              else 0)"
    and dv: "devs k = sortInt64 (deviations (diff k) (tsMid k))"
    and md: "tsMadm k = devs k ! 2"
    unfolding S1_diff S1_indices by blast
  have "tsMid k = 60" "tsLow k = 60" by (simp_all add: lo mid d)
  then have "tsSkew k = 0" by (simp add: sk)
  moreover have "tsMadm k = 0" by (simp add: md dv d \<open>tsMid k = 60\<close> S1_devs)
  ultimately show ?thesis using k by blast
qed

lemma S1_component_scores: "tsSkewScore 0 = 1" "tsMadmScore 0 = 1"
  by code_simp+

lemma S1_conns:
  "tsConnCountScore scenarioAnalyzer 6 = Fin (7686143364045647 / 4611686018427387904)"
proof -
  have 1: "float64 36000 = 36000" "float64 0 = 0" "float64 6 = 6" by code_simp+
  have 2: "fsub 36000 0 = 36000" by code_simp
  have 3: "fdiv 36000 10 = 3600" by code_simp
  have 4: "fdiv0 6 3600 = Fin (7686143364045647 / 4611686018427387904)" by code_simp
  have 5: "\<not> f64_gt (Fin (7686143364045647 / 4611686018427387904)) (Fin 1)" by code_simp
  show ?thesis
    by (simp only: tsConnCountScore_def scenarioAnalyzer_def analyzer.simps Let_def 1 2 3 4 5 if_False)
qed

lemma S1_ceil3:
  "ceil3 (f64_lift (\<lambda>c. fadd (fadd 1 1) c) (Fin (7686143364045647 / 4611686018427387904))) =
   Fin (decimal3 668)"
proof -
  have 1: "fadd 1 1 = 2" by code_simp
  have 2: "fadd 2 (7686143364045647 / 4611686018427387904) = 4507352627059971 / 2251799813685248"
    by code_simp
  have 3: "fdiv (4507352627059971 / 2251799813685248) 3 = 1502450875686657 / 2251799813685248"
    by code_simp
  have 4: "fmul (1502450875686657 / 2251799813685248) 1000 = 1467237183287751 / 2199023255552"
    by code_simp
  have 5: "Ceil (1467237183287751 / 2199023255552) = 668" by code_simp
  have 6: "fdiv 668 1000 = decimal3 668" by (simp add: fdiv_def decimal3_def)
  show ?thesis
    by (simp only: ceil3_def f64_lift_def f64.case 1 2 3 4 5 6)
qed

lemma S1_score:
  "emittedScore scenarioAnalyzer (scenarioInput (Some [0, 60, 120, 180, 240, 300]) 6) =
   Some (Fin (decimal3 668))"
proof -
  obtain k where k: "statistics [0, 60, 120, 180, 240, 300] = Inr k"
    and z: "tsSkew k = 0" "tsMadm k = 0"
    using S1_statistics by blast
  have ts: "TsList (scenarioInput (Some [0, 60, 120, 180, 240, 300]) 6) = Some [0, 60, 120, 180, 240, 300]"
    and cc: "ConnectionCount (scenarioInput (Some [0, 60, 120, 180, 240, 300]) 6) = 6"
    by (simp_all add: scenarioInput_def)
  show ?thesis
    unfolding emittedScore_stats [OF ts k] cc tsSum_def z S1_component_scores S1_conns
    by (simp only: S1_ceil3)
qed

lemma decimal3_668_667: "decimal3 668 \<noteq> decimal3 667"
  by code_simp

section \<open>The histogram and the mode\<close>

lemma i64_id: "- (2 ^ 63) \<le> x \<Longrightarrow> x < 2 ^ 63 \<Longrightarrow> i64 x = x"
  by (simp add: i64_def signed_take_bit_int_eq_self)

lemma sorted_delta_range:
  fixes ts :: "int list"
  assumes "sorted ts" and "Suc i < length ts"
  shows "0 \<le> ts ! Suc i - ts ! i" and "ts ! Suc i - ts ! i \<le> last ts - hd ts"
proof -
  have ne: "ts \<noteq> []" using assms(2) by auto
  have "ts ! i \<le> ts ! Suc i" using assms by (intro sorted_nth_mono) simp_all
  then show "0 \<le> ts ! Suc i - ts ! i" by simp
  have "ts ! 0 \<le> ts ! i" using assms by (intro sorted_nth_mono) simp_all
  moreover have "ts ! Suc i \<le> ts ! (length ts - 1)" using assms by (intro sorted_nth_mono) simp_all
  ultimately show "ts ! Suc i - ts ! i \<le> last ts - hd ts"
    using ne by (simp add: hd_conv_nth last_conv_nth)
qed

lemma deltas_exact:
  assumes "sorted ts" and "last ts - hd ts < 2 ^ 63"
  shows "deltas ts = spec_deltas ts"
proof -
  have "i64 (ts ! Suc i - ts ! i) = ts ! Suc i - ts ! i" if "i < length ts - 1" for i
  proof (rule i64_id)
    have s: "Suc i < length ts" using that by simp
    have "(0::int) \<le> ts ! Suc i - ts ! i" by (rule sorted_delta_range [OF assms(1) s])
    then show "- (2 ^ 63) \<le> ts ! Suc i - ts ! i" by simp
    show "ts ! Suc i - ts ! i < 2 ^ 63"
      using sorted_delta_range(2) [OF assms(1) s] assms(2) by simp
  qed
  then show ?thesis by (simp add: deltas_def spec_deltas_def)
qed

lemma spec_deltas_range:
  assumes "sorted ts" and "d \<in> set (spec_deltas ts)"
  shows "0 \<le> d" and "d \<le> last ts - hd ts"
proof -
  from assms(2) obtain i where i: "i < length ts - 1" and d: "d = ts ! Suc i - ts ! i"
    by (auto simp add: spec_deltas_def)
  have s: "Suc i < length ts" using i by simp
  show "0 \<le> d" unfolding d by (rule sorted_delta_range [OF assms(1) s])
  show "d \<le> last ts - hd ts" unfolding d by (rule sorted_delta_range [OF assms(1) s])
qed

lemma count_list_insort: "count_list (insort x xs) d = count_list (x # xs) d"
  by (induction xs) auto

lemma count_list_sort: "count_list (sort xs) d = count_list xs d"
  by (induction xs) (simp_all add: count_list_insort)

text \<open>
  C8. For a timestamp list of length at least two the statistics return: as intervals
  the distinct values of the deltas in strictly ascending order; as interval counts, in
  parallel, the frequency of each interval among the deltas, which sum to the length
  less one; as mode an interval whose frequency is the mode count; the mode count is
  the largest frequency, and among the intervals of that frequency the mode is the
  smallest. The deltas are those of the \<^verbatim>\<open>diff\<close> slice; for an ascending list whose span
  fits into an \<^verbatim>\<open>int64\<close> they are the differences of neighbouring timestamps.
\<close>

theorem histogram_and_mode:
  assumes "2 \<le> length ts"
  shows "\<exists>k. statistics ts = Inr k \<and>
     sorted_wrt (<) (intervals k) \<and> set (intervals k) = set (deltas ts) \<and>
     length (intervalCounts k) = length (intervals k) \<and>
     (\<forall>i<length (intervals k).
        intervalCounts k ! i = int (count_list (deltas ts) (intervals k ! i))) \<and>
     sum_list (intervalCounts k) = int (length ts) - 1 \<and>
     tsMode k \<in> set (intervals k) \<and>
     tsModeCount k = int (count_list (deltas ts) (tsMode k)) \<and>
     (\<forall>d\<in>set (intervals k). int (count_list (deltas ts) d) \<le> tsModeCount k) \<and>
     (\<forall>d\<in>set (intervals k).
        int (count_list (deltas ts) d) = tsModeCount k \<longrightarrow> tsMode k \<le> d) \<and>
     (sorted ts \<and> last ts - hd ts < 2 ^ 63 \<longrightarrow> deltas ts = spec_deltas ts)"
proof -
  let ?d = "sortInt64 (deltas ts)"
  from statistics_fields [OF assms] obtain k where k: "statistics ts = Inr k"
    and d: "diff k = ?d"
    and cc: "createCountMap (diff k) = Inr (intervals k, intervalCounts k, tsMode k, tsModeCount k)"
    by blast
  have "length ?d \<noteq> 0" using assms by simp
  then have ne: "?d \<noteq> []" by (simp only: length_0_conv not_False_eq_True)
  have cl: "count_list ?d v = count_list (deltas ts) v" for v
    by (simp add: sortInt64_def count_list_sort)
  have st: "set ?d = set (deltas ts)" by (simp add: sortInt64_def)
  from createCountMap_sorted [OF ne sorted_sortInt64] cc [unfolded d]
  have iv: "intervals k = remdups_adj ?d"
    and ic: "intervalCounts k = map (\<lambda>v. int (count_list (deltas ts) v)) (remdups_adj ?d)"
    and mo: "tsMode k \<in> set (deltas ts)"
    and mc: "tsModeCount k = int (count_list (deltas ts) (tsMode k))"
    and mx: "\<forall>v\<in>set (deltas ts). int (count_list (deltas ts) v) \<le> tsModeCount k"
    and tie: "\<forall>v\<in>set (deltas ts). int (count_list (deltas ts) v) = tsModeCount k \<longrightarrow> tsMode k \<le> v"
    unfolding cl st by auto
  have 1: "sorted_wrt (<) (intervals k)"
    unfolding iv by (rule strict_sorted_remdups_adj [OF sorted_sortInt64])
  have 2: "set (intervals k) = set (deltas ts)" by (simp add: iv st)
  have 3: "length (intervalCounts k) = length (intervals k)" by (simp add: iv ic)
  have 4: "\<forall>i<length (intervals k).
             intervalCounts k ! i = int (count_list (deltas ts) (intervals k ! i))"
    by (simp add: iv ic)
  have "sum_list (intervalCounts k) = int (length (deltas ts))"
    unfolding ic sortInt64_def by (rule createCountMap_counts_sum)
  then have 5: "sum_list (intervalCounts k) = int (length ts) - 1" using assms by simp
  have 6: "sorted ts \<and> last ts - hd ts < 2 ^ 63 \<longrightarrow> deltas ts = spec_deltas ts"
    using deltas_exact by blast
  show ?thesis
    using k 1 2 3 4 5 6 mo mc mx tie by (intro exI [of _ k]) (simp only: 2 simp_thms)
qed

theorem histogram_and_mode_witness:
  "\<exists>k. statistics [0, 10, 40, 50, 80] = Inr k \<and>
     sorted_wrt (<) (intervals k) \<and> set (intervals k) = set (deltas [0, 10, 40, 50, 80]) \<and>
     sum_list (intervalCounts k) = 4 \<and>
     tsMode k \<in> set (intervals k) \<and>
     tsModeCount k = int (count_list (deltas [0, 10, 40, 50, 80]) (tsMode k)) \<and>
     deltas [0, 10, 40, 50, 80] = spec_deltas [0, 10, 40, 50, 80]"
proof -
  have "2 \<le> length [0, 10, 40, 50, 80 :: int]" by simp
  from histogram_and_mode [OF this] obtain k where
    "statistics [0, 10, 40, 50, 80] = Inr k"
    "sorted_wrt (<) (intervals k)" "set (intervals k) = set (deltas [0, 10, 40, 50, 80])"
    "sum_list (intervalCounts k) = int (length [0, 10, 40, 50, 80 :: int]) - 1"
    "tsMode k \<in> set (intervals k)"
    "tsModeCount k = int (count_list (deltas [0, 10, 40, 50, 80]) (tsMode k))"
    "sorted [0, 10, 40, 50, 80 :: int] \<and> last [0, 10, 40, 50, 80 :: int] - hd [0, 10, 40, 50, 80] < 2 ^ 63
       \<longrightarrow> deltas [0, 10, 40, 50, 80] = spec_deltas [0, 10, 40, 50, 80]"
    by blast
  then show ?thesis by (intro exI [of _ k]) simp
qed

section \<open>Totality, store errors and scenario S1\<close>

lemma index_Nil: "index [] i = Inl IndexOutOfRange"
  by (simp add: index_def)

lemma statistics_single: "statistics [t] = Inl IndexOutOfRange"
  by (simp add: statistics_def Let_def makeSlice_def deltas_def sortInt64_def index_Nil)

lemma statistics_Nil: "statistics [] = Inl MakeSliceLenOutOfRange"
  by (simp add: statistics_def Let_def makeSlice_def)

lemma analyzeEntry_Some:
  "analyzeEntry a (entry\<lparr>TsList := Some ts\<rparr>) = analyzeTimestamps a entry ts"
  by (simp add: analyzeEntry_def analyzeTimestamps_def)

text \<open>
  C10. For a present timestamp list of length at least two every slice access of the
  analysis is in bounds: the three quartile indices and the index of the median
  deviation lie between zero and the length of the sorted \<^verbatim>\<open>diff\<close> slice (which is
  also the length of \<^verbatim>\<open>devs\<close>), the index of the last element is valid, and
  \<^verbatim>\<open>createCountMap\<close> reads element zero of slices that are not empty; so the statistics
  and the whole loop body return a result. For a list of length one the \<^verbatim>\<open>diff\<close> slice
  is empty and the first lookup panics; for a present empty list the length passed to
  \<^verbatim>\<open>make\<close> is negative and the allocation panics.
\<close>

theorem slice_accesses_in_bounds:
  "(2 \<le> length ts \<longrightarrow>
      (\<forall>p\<in>{1 / 4, 1 / 2, 3 / 4}.
         0 \<le> quartileIndex p ts \<and> quartileIndex p ts < int (length (sortInt64 (deltas ts)))) \<and>
      0 \<le> quartileIndex (1 / 2) ts \<and>
      (\<forall>m. quartileIndex (1 / 2) ts < int (length (sortInt64 (deviations (sortInt64 (deltas ts)) m)))) \<and>
      0 \<le> int (length ts) - 1 - 1 \<and> int (length ts) - 1 - 1 < int (length (sortInt64 (deltas ts))) \<and>
      sortInt64 (deltas ts) \<noteq> [] \<and> remdups_adj (sortInt64 (deltas ts)) \<noteq> [] \<and>
      (\<exists>k. statistics ts = Inr k) \<and>
      (\<exists>u. analyzeEntry a (entry\<lparr>TsList := Some ts\<rparr>) = Inr u)) \<and>
   (length ts = 1 \<longrightarrow>
      sortInt64 (deltas ts) = [] \<and>
      analyzeEntry a (entry\<lparr>TsList := Some ts\<rparr>) = Inl IndexOutOfRange) \<and>
   (ts = [] \<longrightarrow>
      int (length ts) - 1 < 0 \<and>
      analyzeEntry a (entry\<lparr>TsList := Some ts\<rparr>) = Inl MakeSliceLenOutOfRange)"
proof (intro conjI impI)
  assume n: "2 \<le> length ts"
  have len: "int (length (sortInt64 (deltas ts))) = int (length ts) - 1" using n by simp
  show "\<forall>p\<in>{1 / 4, 1 / 2, 3 / 4}.
         0 \<le> quartileIndex p ts \<and> quartileIndex p ts < int (length (sortInt64 (deltas ts)))"
    unfolding len using quartileIndex_bounds [OF n] by simp
  show "0 \<le> quartileIndex (1 / 2) ts" using quartileIndex_bounds [OF n, of "1 / 2"] by simp
  show "\<forall>m. quartileIndex (1 / 2) ts < int (length (sortInt64 (deviations (sortInt64 (deltas ts)) m)))"
    using quartileIndex_bounds [OF n, of "1 / 2"] n by simp
  show "0 \<le> int (length ts) - 1 - 1" using n by simp
  show "int (length ts) - 1 - 1 < int (length (sortInt64 (deltas ts)))" unfolding len by simp
  have "length (sortInt64 (deltas ts)) \<noteq> 0" using n by simp
  then show ne: "sortInt64 (deltas ts) \<noteq> []" by (simp only: length_0_conv not_False_eq_True)
  then show "remdups_adj (sortInt64 (deltas ts)) \<noteq> []" by simp
  from statistics_fields [OF n] obtain k where k: "statistics ts = Inr k" by blast
  then show "\<exists>k. statistics ts = Inr k" ..
  show "\<exists>u. analyzeEntry a (entry\<lparr>TsList := Some ts\<rparr>) = Inr u"
    by (simp add: analyzeEntry_Some analyzeTimestamps_def k Let_def)
next
  assume "length ts = 1"
  then obtain t where t: "ts = [t]" by (cases ts) auto
  show "sortInt64 (deltas ts) = []" by (simp add: t deltas_def sortInt64_def)
  show "analyzeEntry a (entry\<lparr>TsList := Some ts\<rparr>) = Inl IndexOutOfRange"
    by (simp add: t analyzeEntry_Some analyzeTimestamps_def statistics_single)
next
  assume "ts = []"
  then show "int (length ts) - 1 < 0" by simp
  show "analyzeEntry a (entry\<lparr>TsList := Some ts\<rparr>) = Inl MakeSliceLenOutOfRange"
    using \<open>ts = []\<close> by (simp add: analyzeEntry_Some analyzeTimestamps_def statistics_Nil)
qed

theorem slice_accesses_in_bounds_witness:
  "(\<exists>u. analyzeEntry scenarioAnalyzer ((scenarioInput None 3)\<lparr>TsList := Some [0, 60, 120]\<rparr>) = Inr u) \<and>
   analyzeEntry scenarioAnalyzer ((scenarioInput None 1)\<lparr>TsList := Some [5]\<rparr>) = Inl IndexOutOfRange \<and>
   analyzeEntry scenarioAnalyzer ((scenarioInput None 1)\<lparr>TsList := Some []\<rparr>) = Inl MakeSliceLenOutOfRange"
  using slice_accesses_in_bounds [of "[0, 60, 120]" scenarioAnalyzer "scenarioInput None 3"]
    slice_accesses_in_bounds [of "[5]" scenarioAnalyzer "scenarioInput None 1"]
    slice_accesses_in_bounds [of "[]" scenarioAnalyzer "scenarioInput None 1"]
  by simp

text \<open>
  C4. When a query of the reconciler returns an error, the reconciler returns the empty
  update. For an entry with at least two timestamps the update handed to the callback
  carries the pair-record update, selected by the pair identifier, and its host-max
  update is empty when a query fails for the score of that record.
\<close>

theorem store_error_noop:
  "(query_fails a s src fqdn \<longrightarrow> hostBeaconQuery a s src fqdn = noUpdate) \<and>
   (TsList entry = Some ts \<and> 2 \<le> length ts \<longrightarrow>
      (\<exists>u doc. analyzeEntry a entry = Inr u \<and>
         beacon u = \<lparr>selector = Some (PairKey (Hosts entry)), query = Some (SetBeacon doc)\<rparr> \<and>
         (query_fails a (set_score doc) (Unpair (Hosts entry)) (FQDN (Hosts entry)) \<longrightarrow>
            hostBeacon u = noUpdate)))"
proof (intro conjI impI)
  assume "query_fails a s src fqdn"
  then show "hostBeaconQuery a s src fqdn = noUpdate" by (rule hostBeaconQuery_error)
next
  assume h: "TsList entry = Some ts \<and> 2 \<le> length ts"
  then obtain k where k: "statistics ts = Inr k" using statistics_fields [of ts] by blast
  show "\<exists>u doc. analyzeEntry a entry = Inr u \<and>
         beacon u = \<lparr>selector = Some (PairKey (Hosts entry)), query = Some (SetBeacon doc)\<rparr> \<and>
         (query_fails a (set_score doc) (Unpair (Hosts entry)) (FQDN (Hosts entry)) \<longrightarrow>
            hostBeacon u = noUpdate)"
    unfolding analyzeEntry_stats [OF conjunct1 [OF h] k]
    by (intro exI conjI impI) (rule refl, simp, simp add: hostBeaconQuery_error)
qed

lemma query_fails_failingSession: "query_fails (a\<lparr>db := failingSession\<rparr>) s src fqdn"
  by (simp add: query_fails_def failingSession_def)

theorem store_error_noop_witness:
  "hostBeaconQuery (scenarioAnalyzer\<lparr>db := failingSession\<rparr>) (Fin (decimal3 668))
     \<lparr>IP = ''10.0.0.1'', NetworkName = ''lan''\<rparr> ''example.com'' = noUpdate \<and>
   (\<exists>u doc. analyzeEntry (scenarioAnalyzer\<lparr>db := failingSession\<rparr>)
               (scenarioInput (Some [0, 60, 120, 180, 240, 300]) 6) = Inr u \<and>
      beacon u = \<lparr>selector = Some (PairKey (Hosts (scenarioInput (Some [0, 60, 120, 180, 240, 300]) 6))),
                  query = Some (SetBeacon doc)\<rparr> \<and>
      hostBeacon u = noUpdate)"
proof -
  let ?a = "scenarioAnalyzer\<lparr>db := failingSession\<rparr>"
  let ?e = "scenarioInput (Some [0, 60, 120, 180, 240, 300]) 6"
  have ts: "TsList ?e = Some [0, 60, 120, 180, 240, 300] \<and> 2 \<le> length [0, 60, 120, 180, 240, 300 :: int]"
    by (simp add: scenarioInput_def)
  note t = store_error_noop [of ?a "Fin (decimal3 668)" "\<lparr>IP = ''10.0.0.1'', NetworkName = ''lan''\<rparr>"
      "''example.com''" ?e "[0, 60, 120, 180, 240, 300]"]
  from t have 1: "hostBeaconQuery ?a (Fin (decimal3 668))
     \<lparr>IP = ''10.0.0.1'', NetworkName = ''lan''\<rparr> ''example.com'' = noUpdate"
    using query_fails_failingSession by blast
  from t ts obtain u doc where "analyzeEntry ?a ?e = Inr u"
    "beacon u = \<lparr>selector = Some (PairKey (Hosts ?e)), query = Some (SetBeacon doc)\<rparr>"
    "query_fails ?a (set_score doc) (Unpair (Hosts ?e)) (FQDN (Hosts ?e)) \<longrightarrow> hostBeacon u = noUpdate"
    by blast
  then have "\<exists>u doc. analyzeEntry ?a ?e = Inr u \<and>
      beacon u = \<lparr>selector = Some (PairKey (Hosts ?e)), query = Some (SetBeacon doc)\<rparr> \<and>
      hostBeacon u = noUpdate"
    using query_fails_failingSession by blast
  with 1 show ?thesis by blast
qed

text \<open>
  C3, as amended. In scenario S1 (timestamps 0, 60, ..., 300, six connections, window
  from 0 to 36000, chunk 0) the skew and the dispersion are zero, the skew score and the
  dispersion score are one, and the emitted score is \<^verbatim>\<open>0.668\<close>: the connection score is
  6/3600, the mean of the three scores is 0.66722..., and the ceiling to three places
  rounds it up.
\<close>

theorem scenario_S1_emits_668:
  "(\<exists>k. statistics [0, 60, 120, 180, 240, 300] = Inr k \<and> tsSkew k = 0 \<and> tsMadm k = 0) \<and>
   tsSkewScore 0 = 1 \<and> tsMadmScore 0 = 1 \<and>
   emittedScore scenarioAnalyzer (scenarioInput (Some [0, 60, 120, 180, 240, 300]) 6) =
     Some (Fin (decimal3 668))"
  using S1_statistics S1_component_scores S1_score by simp

text \<open>The score of scenario S1 is not \<^verbatim>\<open>0.667\<close>, as C3 has it.\<close>

theorem scenario_S1_does_not_emit_667:
  "emittedScore scenarioAnalyzer (scenarioInput (Some [0, 60, 120, 180, 240, 300]) 6) \<noteq>
     Some (Fin (decimal3 667))"
  using S1_score decimal3_668_667 by simp

section \<open>The statistics of an ascending list\<close>

lemma float64_exact: "\<bar>k\<bar> < 2 ^ 53 \<Longrightarrow> float64 k = of_int k"
  by (simp add: float64_def rnd_of_int)

lemma fmul_quarters_exact:
  assumes "\<bar>c * k\<bar> < 2 ^ 53"
  shows "fmul (of_int c / 4) (of_int k) = of_int c / 4 * of_int k"
proof -
  have "of_int c / 4 * (of_int k :: rat) = of_int (c * k) * 2 powi (- 2)"
    by (simp add: power_int_minus field_simps)
  then show ?thesis using rnd_exact [OF assms, of "- 2"] by (simp add: fmul_def)
qed

lemma quartileIndex_exact:
  assumes "2 \<le> length ts" and "length ts \<le> 2 ^ 51" and "c \<in> {1, 2, 3}"
  shows "nat (quartileIndex (of_int c / 4) ts) = spec_index (of_int c / 4) ts"
proof -
  let ?k = "int (length ts) - 2"
  have k: "0 \<le> ?k" "?k < 2 ^ 51" using assms(1,2) by simp_all
  have c: "0 \<le> c" "c \<le> 3" using assms(3) by auto
  have "c * ?k \<le> 3 * ?k" using c k by (intro mult_right_mono) simp_all
  then have ck: "\<bar>c * ?k\<bar> < 2 ^ 53" using c k by (simp add: abs_mult)
  have "\<bar>?k\<bar> < 2 ^ 53" using k by simp
  then have f: "float64 ?k = of_int ?k" by (rule float64_exact)
  have "fmul (of_int c / 4) (float64 ?k) = of_int c / 4 * of_int ?k"
    unfolding f by (rule fmul_quarters_exact [OF ck])
  moreover have "(of_int ?k :: rat) = of_int (int (length ts) - 1) - 1" by simp
  ultimately show ?thesis by (simp only: quartileIndex_def spec_index_def)
qed

lemma deviations_exact:
  assumes "\<forall>d\<in>set xs. 0 \<le> d \<and> d < 2 ^ 63" and "0 \<le> m" "m < 2 ^ 63"
  shows "deviations xs m = map (\<lambda>d. \<bar>d - m\<bar>) xs"
proof -
  have "Abs (i64 (d - m)) = \<bar>d - m\<bar>" if "d \<in> set xs" for d
  proof -
    have d: "0 \<le> d" "d < 2 ^ 63" using assms(1) that by simp_all
    have 1: "i64 (d - m) = d - m" using d assms(2,3) by (intro i64_id) simp_all
    have 2: "i64 \<bar>d - m\<bar> = \<bar>d - m\<bar>" using d assms(2,3) by (intro i64_id) simp_all
    show ?thesis by (simp add: Abs_def 1 2)
  qed
  then show ?thesis by (simp add: deviations_def)
qed

lemma Round_mono_nonneg: "0 \<le> x \<Longrightarrow> x \<le> y \<Longrightarrow> Round x \<le> Round y"
  by (simp add: Round_def floor_mono)

lemma quartileIndex_mono:
  assumes "2 \<le> length ts" and "0 \<le> p" and "p \<le> p'"
  shows "quartileIndex p ts \<le> quartileIndex p' ts"
proof -
  have K: "0 \<le> float64 (int (length ts) - 2)" using assms(1) by (intro float64_nonneg) simp
  have "p * float64 (int (length ts) - 2) \<le> p' * float64 (int (length ts) - 2)"
    using assms(3) K by (rule mult_right_mono)
  then have "fmul p (float64 (int (length ts) - 2)) \<le> fmul p' (float64 (int (length ts) - 2))"
    unfolding fmul_def by (rule rnd_mono)
  moreover have "0 \<le> fmul p (float64 (int (length ts) - 2))"
    unfolding fmul_def using assms(2) K by (intro rnd_nonneg) simp
  ultimately show ?thesis unfolding quartileIndex_def by (intro Round_mono_nonneg)
qed

text \<open>The statistics of an ascending list whose span fits into an int64.\<close>

lemma statistics_ascending:
  assumes srt: "sorted ts" and n: "2 \<le> length ts" and span: "last ts - hd ts < 2 ^ 63"
  shows "\<exists>k. statistics ts = Inr k \<and>
           diff k = spec_diff ts \<and>
           tsLow k = diff k ! nat (quartileIndex (1 / 4) ts) \<and>
           tsMid k = diff k ! nat (quartileIndex (1 / 2) ts) \<and>
           tsHigh k = diff k ! nat (quartileIndex (3 / 4) ts) \<and>
           0 \<le> tsLow k \<and> tsLow k \<le> tsMid k \<and> tsMid k \<le> tsHigh k \<and>
           tsHigh k \<le> last ts - hd ts \<and>
           tsSkew k =
             (if tsHigh k \<noteq> tsLow k \<and> tsMid k \<noteq> tsLow k \<and> tsMid k \<noteq> tsHigh k
              then fdiv (float64 (tsLow k + tsHigh k - 2 * tsMid k)) (float64 (tsHigh k - tsLow k))
              else 0) \<and>
           devs k = sort (map (\<lambda>d. \<bar>d - tsMid k\<bar>) (diff k)) \<and>
           tsMadm k = devs k ! nat (quartileIndex (1 / 2) ts) \<and>
           0 \<le> tsMadm k \<and>
           tsIntervalRange k = diff k ! (length ts - 2) - diff k ! 0"
proof -
  from statistics_fields [OF n] obtain k where k: "statistics ts = Inr k"
    and d: "diff k = sortInt64 (deltas ts)"
    and lo: "tsLow k = diff k ! nat (quartileIndex (1 / 4) ts)"
    and mid: "tsMid k = diff k ! nat (quartileIndex (1 / 2) ts)"
    and hi: "tsHigh k = diff k ! nat (quartileIndex (3 / 4) ts)"
    and sk: "tsSkew k =
             (if i64 (tsHigh k - tsLow k) \<noteq> 0 \<and> tsMid k \<noteq> tsLow k \<and> tsMid k \<noteq> tsHigh k
              then fdiv (float64 (i64 (i64 (tsLow k + tsHigh k) - i64 (2 * tsMid k))))
                        (float64 (i64 (tsHigh k - tsLow k)))
              else 0)"
    and dv: "devs k = sortInt64 (deviations (diff k) (tsMid k))"
    and md: "tsMadm k = devs k ! nat (quartileIndex (1 / 2) ts)"
    and rg: "tsIntervalRange k = i64 (diff k ! (length ts - 2) - diff k ! 0)"
    by blast
  let ?S = "last ts - hd ts"
  have d': "diff k = spec_diff ts"
    by (simp add: d sortInt64_def spec_diff_def deltas_exact [OF srt span])
  have len: "length (diff k) = length ts - 1" by (simp add: d)
  have sorted_d: "sorted (diff k)" by (simp add: d)
  have rng: "0 \<le> x \<and> x \<le> ?S" if "x \<in> set (diff k)" for x
    using that spec_deltas_range [OF srt, of x] by (simp add: d' spec_diff_def)
  have q1: "0 \<le> quartileIndex (1 / 4) ts" "quartileIndex (1 / 4) ts < int (length ts) - 1"
    using quartileIndex_bounds [OF n, of "1 / 4"] by simp_all
  have q2: "0 \<le> quartileIndex (1 / 2) ts" "quartileIndex (1 / 2) ts < int (length ts) - 1"
    using quartileIndex_bounds [OF n, of "1 / 2"] by simp_all
  have q3: "0 \<le> quartileIndex (3 / 4) ts" "quartileIndex (3 / 4) ts < int (length ts) - 1"
    using quartileIndex_bounds [OF n, of "3 / 4"] by simp_all
  have q12: "quartileIndex (1 / 4) ts \<le> quartileIndex (1 / 2) ts"
    using n by (intro quartileIndex_mono) simp_all
  have q23: "quartileIndex (1 / 2) ts \<le> quartileIndex (3 / 4) ts"
    using n by (intro quartileIndex_mono) simp_all
  have i1: "nat (quartileIndex (1 / 4) ts) < length (diff k)" using q1 n by (simp add: len)
  have i2: "nat (quartileIndex (1 / 2) ts) < length (diff k)" using q2 n by (simp add: len)
  have i3: "nat (quartileIndex (3 / 4) ts) < length (diff k)" using q3 n by (simp add: len)
  have lo_in: "tsLow k \<in> set (diff k)" unfolding lo using i1 by (rule nth_mem)
  have mid_in: "tsMid k \<in> set (diff k)" unfolding mid using i2 by (rule nth_mem)
  have hi_in: "tsHigh k \<in> set (diff k)" unfolding hi using i3 by (rule nth_mem)
  have lm: "tsLow k \<le> tsMid k"
    unfolding lo mid using sorted_d q12 q1 i2 by (intro sorted_nth_mono) simp_all
  have mh: "tsMid k \<le> tsHigh k"
    unfolding mid hi using sorted_d q23 q2 i3 by (intro sorted_nth_mono) simp_all
  have lo0: "0 \<le> tsLow k" using rng [OF lo_in] by simp
  have hiS: "tsHigh k \<le> ?S" using rng [OF hi_in] by simp
  have den: "i64 (tsHigh k - tsLow k) = tsHigh k - tsLow k"
    using lo0 hiS lm mh span by (intro i64_id) simp_all
  have "i64 (i64 (tsLow k + tsHigh k) - i64 (2 * tsMid k)) = i64 (tsLow k + tsHigh k - 2 * tsMid k)"
    by (simp add: i64_def signed_take_bit_diff)
  also have "\<dots> = tsLow k + tsHigh k - 2 * tsMid k"
    using lo0 hiS lm mh span by (intro i64_id) simp_all
  finally have num: "i64 (i64 (tsLow k + tsHigh k) - i64 (2 * tsMid k)) =
    tsLow k + tsHigh k - 2 * tsMid k" .
  have sk': "tsSkew k =
             (if tsHigh k \<noteq> tsLow k \<and> tsMid k \<noteq> tsLow k \<and> tsMid k \<noteq> tsHigh k
              then fdiv (float64 (tsLow k + tsHigh k - 2 * tsMid k)) (float64 (tsHigh k - tsLow k))
              else 0)"
    unfolding sk den num by simp
  have "\<forall>x\<in>set (diff k). 0 \<le> x \<and> x < 2 ^ 63" using rng span by fastforce
  moreover have "0 \<le> tsMid k" "tsMid k < 2 ^ 63" using rng [OF mid_in] span by simp_all
  ultimately have dev: "deviations (diff k) (tsMid k) = map (\<lambda>x. \<bar>x - tsMid k\<bar>) (diff k)"
    by (rule deviations_exact)
  have dv': "devs k = sort (map (\<lambda>x. \<bar>x - tsMid k\<bar>) (diff k))"
    by (simp add: dv dev sortInt64_def)
  have "nat (quartileIndex (1 / 2) ts) < length (devs k)" using i2 by (simp add: dv')
  then have "tsMadm k \<in> set (devs k)" unfolding md by (rule nth_mem)
  then have md0: "0 \<le> tsMadm k" by (auto simp add: dv')
  have l_in: "diff k ! (length ts - 2) \<in> set (diff k)" using n by (intro nth_mem) (simp add: len)
  have f_in: "diff k ! 0 \<in> set (diff k)" using n by (intro nth_mem) (simp add: len)
  have rg': "tsIntervalRange k = diff k ! (length ts - 2) - diff k ! 0"
    unfolding rg using rng [OF l_in] rng [OF f_in] span by (intro i64_id) simp_all
  show ?thesis
    using k d' lo mid hi lo0 lm mh hiS sk' dv' md md0 rg' by blast
qed

section \<open>Bounds of the scores\<close>

lemma rnd_numeral_exact [simp]: "rnd 1 = 1" "rnd 2 = 2" "rnd 3 = 3" "rnd 1000 = 1000" "rnd (- 1) = - 1"
  using rnd_of_int [of 1] rnd_of_int [of 2] rnd_of_int [of 3] rnd_of_int [of 1000]
    rnd_of_int [of "- 1"] by simp_all

lemma float64_mono: "j \<le> k \<Longrightarrow> float64 j \<le> float64 k"
  by (simp add: float64_def rnd_mono)

lemma float64_pos: "0 < k \<Longrightarrow> 0 < float64 k"
  by (simp add: float64_def rnd_pos)

lemma float64_minus: "float64 (- k) = - float64 k"
  by (simp add: float64_def rnd_minus)

lemma skew_bound:
  assumes "lo \<le> mid" and "mid \<le> hi" and "hi \<noteq> lo"
  shows "- 1 \<le> fdiv (float64 (lo + hi - 2 * mid)) (float64 (hi - lo))"
    and "fdiv (float64 (lo + hi - 2 * mid)) (float64 (hi - lo)) \<le> 1"
proof -
  let ?n = "float64 (lo + hi - 2 * mid)" and ?d = "float64 (hi - lo)"
  have d0: "0 < ?d" using assms by (intro float64_pos) simp
  have up: "?n \<le> ?d" using assms by (intro float64_mono) simp
  have "float64 (- (hi - lo)) \<le> ?n" using assms by (intro float64_mono) simp
  then have dn: "- ?d \<le> ?n" by (simp only: float64_minus)
  have "?n / ?d \<le> 1" using up d0 by simp
  then have "rnd (?n / ?d) \<le> rnd 1" by (rule rnd_mono)
  then show "fdiv ?n ?d \<le> 1" by (simp add: fdiv_def)
  have "- 1 \<le> ?n / ?d" using dn d0 by (simp add: pos_le_divide_eq)
  then have "rnd (- 1) \<le> rnd (?n / ?d)" by (rule rnd_mono)
  then show "- 1 \<le> fdiv ?n ?d" by (simp add: fdiv_def)
qed







section \<open>The kernel against the specification, and the skew\<close>

text \<open>
  C6. For an ascending timestamp list of length at least two the statistics compute
  what the specification describes over the integers: \<open>diff\<close> is the ascending sort of
  the differences of neighbouring timestamps; with \<open>m = n - 1\<close>, \<open>Q1\<close>, \<open>Q2\<close> and \<open>Q3\<close> are
  its values at the indices \<open>round(p (m - 1))\<close> for \<open>p\<close> = 0.25, 0.5 and 0.75, rounded
  half away from zero; the dispersion is the value at index \<open>round(0.5 (m - 1))\<close> of the
  ascending sort of \<open>|diff[i] - Q2|\<close>; the range is \<open>diff[m - 1] - diff[0]\<close>. The list
  is one a machine can hold: its span fits into an \<^verbatim>\<open>int64\<close>, so that no delta wraps
  around, and it has at most \<open>2 ^ 51\<close> elements, so that \<^verbatim>\<open>p*float64(tsLength-1)\<close> is
  exact.
\<close>

theorem kernel_matches_specification:
  assumes "sorted ts" and "2 \<le> length ts" and "length ts \<le> 2 ^ 51"
    and "last ts - hd ts < 2 ^ 63"
  shows "\<exists>k. statistics ts = Inr k \<and>
           diff k = spec_diff ts \<and>
           tsLow k = spec_quartile (1 / 4) ts \<and>
           tsMid k = spec_quartile (1 / 2) ts \<and>
           tsHigh k = spec_quartile (3 / 4) ts \<and>
           devs k = spec_devs ts \<and>
           tsMadm k = spec_dispersion ts \<and>
           tsIntervalRange k = spec_range ts"
proof -
  from statistics_ascending [OF assms(1,2,4)] obtain k where k: "statistics ts = Inr k"
    and d: "diff k = spec_diff ts"
    and lo: "tsLow k = diff k ! nat (quartileIndex (1 / 4) ts)"
    and mid: "tsMid k = diff k ! nat (quartileIndex (1 / 2) ts)"
    and hi: "tsHigh k = diff k ! nat (quartileIndex (3 / 4) ts)"
    and dv: "devs k = sort (map (\<lambda>d. \<bar>d - tsMid k\<bar>) (diff k))"
    and md: "tsMadm k = devs k ! nat (quartileIndex (1 / 2) ts)"
    and rg: "tsIntervalRange k = diff k ! (length ts - 2) - diff k ! 0"
    by blast
  have q1: "nat (quartileIndex (1 / 4) ts) = spec_index (1 / 4) ts"
    using quartileIndex_exact [OF assms(2,3), of 1] by simp
  have q2: "nat (quartileIndex (1 / 2) ts) = spec_index (1 / 2) ts"
    using quartileIndex_exact [OF assms(2,3), of 2] by simp
  have q3: "nat (quartileIndex (3 / 4) ts) = spec_index (3 / 4) ts"
    using quartileIndex_exact [OF assms(2,3), of 3] by simp
  have 1: "tsLow k = spec_quartile (1 / 4) ts" by (simp add: lo q1 d spec_quartile_def)
  have 2: "tsMid k = spec_quartile (1 / 2) ts" by (simp add: mid q2 d spec_quartile_def)
  have 3: "tsHigh k = spec_quartile (3 / 4) ts" by (simp add: hi q3 d spec_quartile_def)
  have 4: "devs k = spec_devs ts" by (simp add: dv d 2 spec_devs_def)
  have 5: "tsMadm k = spec_dispersion ts" by (simp add: md q2 4 spec_dispersion_def)
  have "length ts - 2 = length ts - 1 - 1" by simp
  then have 6: "tsIntervalRange k = spec_range ts" by (simp only: rg d spec_range_def)
  from k d 1 2 3 4 5 6 show ?thesis by blast
qed

lemma example_spec_values:
  "spec_diff [0, 10, 40, 50, 80] = [10, 10, 30, 30]"
  "spec_quartile (1 / 4) [0, 10, 40, 50, 80] = 10"
  "spec_quartile (1 / 2) [0, 10, 40, 50, 80] = 30"
  "spec_quartile (3 / 4) [0, 10, 40, 50, 80] = 30"
  "spec_dispersion [0, 10, 40, 50, 80] = 20"
  "spec_range [0, 10, 40, 50, 80] = 20"
  by code_simp+

theorem kernel_matches_specification_witness:
  "\<exists>k. statistics [0, 10, 40, 50, 80] = Inr k \<and> diff k = [10, 10, 30, 30] \<and>
     tsLow k = 10 \<and> tsMid k = 30 \<and> tsHigh k = 30 \<and> tsMadm k = 20 \<and> tsIntervalRange k = 20"
proof -
  have "sorted [0, 10, 40, 50, 80 :: int]" "2 \<le> length [0, 10, 40, 50, 80 :: int]"
    "length [0, 10, 40, 50, 80 :: int] \<le> 2 ^ 51"
    "last [0, 10, 40, 50, 80 :: int] - hd [0, 10, 40, 50, 80] < 2 ^ 63"
    by simp_all
  from kernel_matches_specification [OF this] show ?thesis
    unfolding example_spec_values by blast
qed

text \<open>
  C7. For an ascending timestamp list of length at least two (whose span fits into an
  \<^verbatim>\<open>int64\<close>) the quartiles are ordered, the skew is the \<^verbatim>\<open>float64\<close> quotient of
  \<open>Q1 + Q3 - 2 Q2\<close> by \<open>Q3 - Q1\<close> when \<open>Q3 \<noteq> Q1\<close>, \<open>Q2 \<noteq> Q1\<close> and \<open>Q2 \<noteq> Q3\<close>, and zero
  otherwise, and it lies between -1 and 1. When the span is below \<open>2 ^ 53\<close> both
  conversions to \<^verbatim>\<open>float64\<close> are exact and the skew is the correctly rounded quotient.
\<close>

theorem bowley_skew:
  assumes "sorted ts" and "2 \<le> length ts" and "last ts - hd ts < 2 ^ 63"
  shows "\<exists>k. statistics ts = Inr k \<and>
           tsLow k = sortInt64 (deltas ts) ! nat (quartileIndex (1 / 4) ts) \<and>
           tsMid k = sortInt64 (deltas ts) ! nat (quartileIndex (1 / 2) ts) \<and>
           tsHigh k = sortInt64 (deltas ts) ! nat (quartileIndex (3 / 4) ts) \<and>
           tsLow k \<le> tsMid k \<and> tsMid k \<le> tsHigh k \<and>
           tsSkew k =
             (if tsHigh k \<noteq> tsLow k \<and> tsMid k \<noteq> tsLow k \<and> tsMid k \<noteq> tsHigh k
              then fdiv (float64 (tsLow k + tsHigh k - 2 * tsMid k)) (float64 (tsHigh k - tsLow k))
              else 0) \<and>
           - 1 \<le> tsSkew k \<and> tsSkew k \<le> 1 \<and>
           (last ts - hd ts < 2 ^ 53 \<longrightarrow>
              tsSkew k =
                (if tsHigh k \<noteq> tsLow k \<and> tsMid k \<noteq> tsLow k \<and> tsMid k \<noteq> tsHigh k
                 then rnd (of_int (tsLow k + tsHigh k - 2 * tsMid k) / of_int (tsHigh k - tsLow k))
                 else 0))"
proof -
  from statistics_ascending [OF assms] obtain k where k: "statistics ts = Inr k"
    and d: "diff k = spec_diff ts"
    and lo: "tsLow k = diff k ! nat (quartileIndex (1 / 4) ts)"
    and mid: "tsMid k = diff k ! nat (quartileIndex (1 / 2) ts)"
    and hi: "tsHigh k = diff k ! nat (quartileIndex (3 / 4) ts)"
    and ord: "0 \<le> tsLow k" "tsLow k \<le> tsMid k" "tsMid k \<le> tsHigh k" "tsHigh k \<le> last ts - hd ts"
    and sk: "tsSkew k =
             (if tsHigh k \<noteq> tsLow k \<and> tsMid k \<noteq> tsLow k \<and> tsMid k \<noteq> tsHigh k
              then fdiv (float64 (tsLow k + tsHigh k - 2 * tsMid k)) (float64 (tsHigh k - tsLow k))
              else 0)"
    by blast
  have d': "diff k = sortInt64 (deltas ts)"
    by (simp add: d spec_diff_def sortInt64_def deltas_exact [OF assms(1,3)])
  have b: "- 1 \<le> tsSkew k \<and> tsSkew k \<le> 1"
  proof (cases "tsHigh k \<noteq> tsLow k \<and> tsMid k \<noteq> tsLow k \<and> tsMid k \<noteq> tsHigh k")
    case True
    then have "tsHigh k \<noteq> tsLow k" by simp
    from skew_bound [OF ord(2,3) this] True show ?thesis by (simp add: sk)
  next
    case False
    then have "tsSkew k = 0" unfolding sk by (simp only: if_False)
    then show ?thesis by simp
  qed
  have e: "tsSkew k =
                (if tsHigh k \<noteq> tsLow k \<and> tsMid k \<noteq> tsLow k \<and> tsMid k \<noteq> tsHigh k
                 then rnd (of_int (tsLow k + tsHigh k - 2 * tsMid k) / of_int (tsHigh k - tsLow k))
                 else 0)" if s: "last ts - hd ts < 2 ^ 53"
  proof -
    have "\<bar>tsLow k + tsHigh k - 2 * tsMid k\<bar> < 2 ^ 53" using ord s by (simp add: abs_less_iff)
    then have 1: "float64 (tsLow k + tsHigh k - 2 * tsMid k) = of_int (tsLow k + tsHigh k - 2 * tsMid k)"
      by (rule float64_exact)
    have "\<bar>tsHigh k - tsLow k\<bar> < 2 ^ 53" using ord s by (simp add: abs_less_iff)
    then have 2: "float64 (tsHigh k - tsLow k) = of_int (tsHigh k - tsLow k)"
      by (rule float64_exact)
    show ?thesis unfolding sk 1 2 fdiv_def ..
  qed
  from k lo mid hi ord(2,3) sk b e show ?thesis unfolding d' by blast
qed

lemma example_skew_values:
  "sortInt64 (deltas [0, 1, 3, 6, 13, 22]) = [1, 2, 3, 7, 9]"
  "nat (quartileIndex (1 / 4) [0, 1, 3, 6, 13, 22]) = 1"
  "nat (quartileIndex (1 / 2) [0, 1, 3, 6, 13, 22]) = 2"
  "nat (quartileIndex (3 / 4) [0, 1, 3, 6, 13, 22]) = 3"
  by code_simp+

theorem bowley_skew_witness:
  "\<exists>k. statistics [0, 1, 3, 6, 13, 22] = Inr k \<and>
     tsLow k = 2 \<and> tsMid k = 3 \<and> tsHigh k = 7 \<and>
     tsSkew k = rnd (3 / 5) \<and> - 1 \<le> tsSkew k \<and> tsSkew k \<le> 1"
proof -
  have h: "sorted [0, 1, 3, 6, 13, 22 :: int]" "2 \<le> length [0, 1, 3, 6, 13, 22 :: int]"
    "last [0, 1, 3, 6, 13, 22 :: int] - hd [0, 1, 3, 6, 13, 22] < 2 ^ 63"
    by simp_all
  have s: "last [0, 1, 3, 6, 13, 22 :: int] - hd [0, 1, 3, 6, 13, 22] < 2 ^ 53" by simp
  from bowley_skew [OF h] obtain k where k: "statistics [0, 1, 3, 6, 13, 22] = Inr k"
    and q: "tsLow k = 2" "tsMid k = 3" "tsHigh k = 7"
    and b: "- 1 \<le> tsSkew k" "tsSkew k \<le> 1"
    and e: "last [0, 1, 3, 6, 13, 22 :: int] - hd [0, 1, 3, 6, 13, 22] < 2 ^ 53 \<longrightarrow>
              tsSkew k =
                (if tsHigh k \<noteq> tsLow k \<and> tsMid k \<noteq> tsLow k \<and> tsMid k \<noteq> tsHigh k
                 then rnd (of_int (tsLow k + tsHigh k - 2 * tsMid k) / of_int (tsHigh k - tsLow k))
                 else 0)"
    unfolding example_skew_values by auto
  from e s have "tsSkew k = rnd (3 / 5)" by (simp add: q)
  with k q b show ?thesis by blast
qed

section \<open>The score\<close>



end
